theory Spec2Isabelle
  imports Main "HOL-Library.List_Lexorder" "HOL-Library.Multiset"
begin

section \<open>Strings\<close>

text \<open>
  A Python \<^verbatim>\<open>str\<close> is a sequence of Unicode code points. A character is modelled by its
  code point, a natural number, and a string by the list of its code points. The order
  of \<^verbatim>\<open>sorted\<close> on strings is the lexicographic order of the code points, which is the
  order of lists of naturals here. ASCII literals of the source are written with
  \<open>ascii\<close>; the line feed is \<open>nl\<close>.
\<close>

type_synonym str = "nat list"

definition ascii :: "string \<Rightarrow> str" where
  "ascii s = map of_char s"

definition nl :: nat where
  "nl = 10"

text \<open>
  \<^verbatim>\<open>str.strip\<close>, \<^verbatim>\<open>str.rstrip\<close> and the class \<^verbatim>\<open>\s\<close> of \<^verbatim>\<open>re\<close> on a \<^verbatim>\<open>str\<close> pattern share one
  set of characters, those for which \<^verbatim>\<open>str.isspace\<close> holds: U+0009 to U+000D, U+001C to
  U+0020, U+0085, U+00A0, U+1680, U+2000 to U+200A, U+2028, U+2029, U+202F, U+205F and
  U+3000.
\<close>

definition isspace :: "nat \<Rightarrow> bool" where
  "isspace c \<longleftrightarrow>
     (9 \<le> c \<and> c \<le> 13) \<or> (28 \<le> c \<and> c \<le> 32) \<or> c = 133 \<or> c = 160 \<or> c = 5760 \<or>
     (8192 \<le> c \<and> c \<le> 8202) \<or> c = 8232 \<or> c = 8233 \<or> c = 8239 \<or> c = 8287 \<or>
     c = 12288"

text \<open>
  The class \<^verbatim>\<open>\d\<close> on a \<^verbatim>\<open>str\<close> pattern is the Unicode category Nd. Its members come in
  runs of ten consecutive code points, the digits zero to nine of one script; the table
  lists the code point of each zero (Unicode 14, the version of CPython 3.11).
\<close>

definition decimal_zeros :: "nat list" where
  "decimal_zeros =
     [48, 1632, 1776, 1984, 2406, 2534, 2662, 2790, 2918, 3046, 3174, 3302, 3430, 3558,
      3664, 3792, 3872, 4160, 4240, 6112, 6160, 6470, 6608, 6784, 6800, 6992, 7088, 7232,
      7248, 42528, 43216, 43264, 43472, 43504, 43600, 44016, 65296, 66720, 68912, 69734,
      69872, 69942, 70096, 70384, 70736, 70864, 71248, 71360, 71472, 71904, 72016, 72784,
      73040, 73120, 92768, 92864, 93008, 120782, 120792, 120802, 120812, 120822, 123200,
      123632, 125264, 130032]"

definition is_decimal :: "nat \<Rightarrow> bool" where
  "is_decimal c \<longleftrightarrow> list_ex (\<lambda>z. z \<le> c \<and> c < z + 10) decimal_zeros"

text \<open>The class \<^verbatim>\<open>[A-Z]\<close>, without \<^verbatim>\<open>re.IGNORECASE\<close>: the 26 code points from 65 to 90.\<close>

definition upper_AZ :: "nat \<Rightarrow> bool" where
  "upper_AZ c \<longleftrightarrow> 65 \<le> c \<and> c \<le> 90"

definition lstrip :: "str \<Rightarrow> str" where
  "lstrip s = dropWhile isspace s"

definition rstrip :: "str \<Rightarrow> str" where
  "rstrip s = rev (dropWhile isspace (rev s))"

definition strip :: "str \<Rightarrow> str" where
  "strip s = lstrip (rstrip s)"

definition endswith_nl :: "str \<Rightarrow> bool" where
  "endswith_nl s \<longleftrightarrow> s \<noteq> [] \<and> last s = nl"

section \<open>Regular expressions of the source\<close>

text \<open>
  The two patterns of the source are built from character classes, literals, the
  repetitions \<^verbatim>\<open>*\<close>, \<^verbatim>\<open>+\<close>, \<^verbatim>\<open>{2,}\<close> and anchors. Each piece is a matcher that takes
  the matcher of the rest of the pattern and the rest of the subject, and tries every
  number of repetitions, as the backtracking engine does.
\<close>

fun star_then :: "(nat \<Rightarrow> bool) \<Rightarrow> (str \<Rightarrow> bool) \<Rightarrow> str \<Rightarrow> bool" where
  "star_then cls k [] = k []"
| "star_then cls k (c # cs) = ((cls c \<and> star_then cls k cs) \<or> k (c # cs))"

fun atleast_then :: "nat \<Rightarrow> (nat \<Rightarrow> bool) \<Rightarrow> (str \<Rightarrow> bool) \<Rightarrow> str \<Rightarrow> bool" where
  "atleast_then 0 cls k s = star_then cls k s"
| "atleast_then (Suc n) cls k [] = False"
| "atleast_then (Suc n) cls k (c # cs) = (cls c \<and> atleast_then n cls k cs)"

definition lit_then :: "str \<Rightarrow> (str \<Rightarrow> bool) \<Rightarrow> str \<Rightarrow> bool" where
  "lit_then l k s \<longleftrightarrow> take (length l) s = l \<and> k (drop (length l) s)"

text \<open>The end of the subject, where \<^verbatim>\<open>re.fullmatch\<close> requires the match to stop.\<close>

definition at_end :: "str \<Rightarrow> bool" where
  "at_end s \<longleftrightarrow> s = []"

text \<open>\<^verbatim>\<open>$\<close> under \<^verbatim>\<open>re.MULTILINE\<close>: the end of the subject, or just before a line feed.\<close>

definition at_eol :: "str \<Rightarrow> bool" where
  "at_eol s \<longleftrightarrow> (case s of [] \<Rightarrow> True | c # _ \<Rightarrow> c = nl)"

subsection \<open>\<^verbatim>\<open>is_ticket\<close>\<close>

text \<open>\<^verbatim>\<open>bool(re.fullmatch(r"[A-Z]{2,}-\d+", tag))\<close>\<close>

definition is_ticket :: "str \<Rightarrow> bool" where
  "is_ticket tag \<longleftrightarrow>
     atleast_then (Suc (Suc 0)) upper_AZ
       (lit_then (ascii ''-'') (atleast_then (Suc 0) is_decimal at_end)) tag"

section \<open>The note renderer\<close>

record RenderedLines =
  lines :: "str list"

text \<open>The two \<^verbatim>\<open>for\<close> loops of \<^verbatim>\<open>render_note_lines\<close>, each appending to \<^verbatim>\<open>lines\<close>.\<close>

fun person_loop :: "str \<Rightarrow> str list \<Rightarrow> str list \<Rightarrow> str list" where
  "person_loop message [] ls = ls"
| "person_loop message (t # ts) ls =
     person_loop message ts (ls @ [rstrip (ascii ''* '' @ t @ ascii '': '' @ message)])"

fun ticket_loop :: "str \<Rightarrow> str list \<Rightarrow> str list \<Rightarrow> str list" where
  "ticket_loop message [] ls = ls"
| "ticket_loop message (t # ts) ls =
     ticket_loop message ts
       ((ls @ [ascii ''* '' @ t]) @ [rstrip (ascii ''    * '' @ message)])"

text \<open>\<^verbatim>\<open>[t.strip() for t in tags if t and t.strip()]\<close>\<close>

definition clean_tags :: "str list \<Rightarrow> str list" where
  "clean_tags tags = map strip (filter (\<lambda>t. t \<noteq> [] \<and> strip t \<noteq> []) tags)"

definition render_note_lines :: "str \<Rightarrow> str list \<Rightarrow> RenderedLines" where
  "render_note_lines message tags0 =
     (let tags = clean_tags tags0 in
      if tags = [] then \<lparr>lines = [] @ [rstrip (ascii ''* '' @ message)]\<rparr>
      else
        let person_like = sort (filter (\<lambda>t. \<not> is_ticket t) tags);
            tickets = sort (filter is_ticket tags);
            ls1 = person_loop message person_like [];
            ls2 = ticket_loop message tickets ls1
        in \<lparr>lines = ls2\<rparr>)"

section \<open>Dates\<close>

text \<open>
  Of a \<^verbatim>\<open>datetime\<close> the program reads the calendar date only: \<^verbatim>\<open>dt.year\<close> and, through
  \<^verbatim>\<open>strftime\<close>, the month and the day.
\<close>

record datetime =
  year :: nat
  month :: nat
  day :: nat

text \<open>\<^verbatim>\<open>str(n)\<close> of a non-negative integer, as \<^verbatim>\<open>f"{dt.year}"\<close> formats it: decimal, no padding.\<close>

fun dec :: "nat \<Rightarrow> str" where
  "dec n = (if n < 10 then [48 + n] else dec (n div 10) @ [48 + n mod 10])"

declare dec.simps [simp del]

definition zfill :: "nat \<Rightarrow> str \<Rightarrow> str" where
  "zfill w s = replicate (w - length s) 48 @ s"

text \<open>
  \<^verbatim>\<open>dt.strftime("%m/%d/%Y")\<close> on CPython with the GNU C library: month and day
  zero-padded to two digits, the year in decimal without padding, so that the year 999
  gives \<^verbatim>\<open>08/14/999\<close>. The source puts this string into the pattern unescaped; none of
  its characters is special in a pattern, so it acts as a literal.
\<close>

definition strftime_mdY :: "datetime \<Rightarrow> str" where
  "strftime_mdY dt =
     zfill 2 (dec (month dt)) @ ascii ''/'' @ zfill 2 (dec (day dt)) @ ascii ''/'' @
     dec (year dt)"

section \<open>The file system\<close>

text \<open>
  A path is the list of its components from the root; the root itself is the empty
  list and is a directory. A node is a directory or a regular file with its text, the
  characters that have been written to it; the platform is POSIX, where writing a line
  feed in text mode stores a line feed. Permissions and links are not modelled, and a
  file is taken to hold UTF-8. Every operation returns the file system it leaves
  behind, also when it raises.
\<close>

type_synonym path = "str list"

datatype node = Dir | File str

type_synonym fs = "path \<Rightarrow> node option"

datatype error =
  FileExistsError | NotADirectoryError | FileNotFoundError | IsADirectoryError |
  UnicodeEncodeError

definition is_dir :: "fs \<Rightarrow> path \<Rightarrow> bool" where
  "is_dir t p \<longleftrightarrow> p = [] \<or> t p = Some Dir"

definition path_exists :: "fs \<Rightarrow> path \<Rightarrow> bool" where
  "path_exists t p \<longleftrightarrow> p = [] \<or> t p \<noteq> None"

text \<open>
  \<^verbatim>\<open>Path.mkdir(parents=True, exist_ok=True)\<close>: walking down from the directory \<open>pre\<close>,
  every missing component is created, an existing directory is accepted, and a regular
  file in the way raises.
\<close>

fun mkdir_from :: "fs \<Rightarrow> path \<Rightarrow> str list \<Rightarrow> (error + unit) \<times> fs" where
  "mkdir_from t pre [] = (Inr (), t)"
| "mkdir_from t pre (c # cs) =
     (case t (pre @ [c]) of
        None \<Rightarrow> mkdir_from (t(pre @ [c] \<mapsto> Dir)) (pre @ [c]) cs
      | Some Dir \<Rightarrow> mkdir_from t (pre @ [c]) cs
      | Some (File _) \<Rightarrow> (Inl (if cs = [] then FileExistsError else NotADirectoryError), t))"

definition mkdir_parents_exist_ok :: "fs \<Rightarrow> path \<Rightarrow> (error + unit) \<times> fs" where
  "mkdir_parents_exist_ok t p = mkdir_from t [] p"

definition no_parent_error :: "fs \<Rightarrow> path \<Rightarrow> error" where
  "no_parent_error t p =
     (case t (butlast p) of Some (File _) \<Rightarrow> NotADirectoryError | _ \<Rightarrow> FileNotFoundError)"

text \<open>\<^verbatim>\<open>Path.touch()\<close>: an existing node is left as it is, a missing file is created empty.\<close>

definition touch :: "fs \<Rightarrow> path \<Rightarrow> (error + unit) \<times> fs" where
  "touch t p =
     (if path_exists t p then (Inr (), t)
      else if is_dir t (butlast p) then (Inr (), t(p \<mapsto> File []))
      else (Inl (no_parent_error t p), t))"

text \<open>
  \<^verbatim>\<open>Path.read_text\<close> reads in text mode with universal newlines: a carriage return,
  alone or followed by a line feed, comes back as one line feed. \<open>after_cr\<close> tells
  whether the character before was a carriage return.
\<close>

fun universal_newlines :: "bool \<Rightarrow> str \<Rightarrow> str" where
  "universal_newlines after_cr [] = []"
| "universal_newlines after_cr (c # cs) =
     (if c = 13 then nl # universal_newlines True cs
      else if c = nl \<and> after_cr then universal_newlines False cs
      else c # universal_newlines False cs)"

definition read_text :: "fs \<Rightarrow> path \<Rightarrow> error + str" where
  "read_text t p =
     (if p = [] then Inl IsADirectoryError
      else case t p of
        Some (File c) \<Rightarrow> Inr (universal_newlines False c)
      | Some Dir \<Rightarrow> Inl IsADirectoryError
      | None \<Rightarrow> Inl FileNotFoundError)"

text \<open>\<^verbatim>\<open>path.open("a")\<close>: the file is created empty when missing; its text is kept.\<close>

definition open_append :: "fs \<Rightarrow> path \<Rightarrow> (error + unit) \<times> fs" where
  "open_append t p =
     (if p = [] then (Inl IsADirectoryError, t)
      else case t p of
        Some (File c) \<Rightarrow> (Inr (), t)
      | Some Dir \<Rightarrow> (Inl IsADirectoryError, t)
      | None \<Rightarrow>
          if is_dir t (butlast p) then (Inr (), t(p \<mapsto> File []))
          else (Inl (no_parent_error t p), t))"

text \<open>
  \<^verbatim>\<open>f.write(s)\<close> on a file opened for appending with the encoding UTF-8: a string
  with a surrogate code point cannot be encoded, the call raises and writes nothing of
  it; what was written before stays.
\<close>

definition surrogate :: "nat \<Rightarrow> bool" where
  "surrogate c \<longleftrightarrow> 55296 \<le> c \<and> c \<le> 57343"

definition encodable :: "str \<Rightarrow> bool" where
  "encodable s \<longleftrightarrow> \<not> list_ex surrogate s"

definition fwrite :: "fs \<Rightarrow> path \<Rightarrow> str \<Rightarrow> (error + unit) \<times> fs" where
  "fwrite t p s =
     (if encodable s
      then (Inr (), case t p of Some (File c) \<Rightarrow> t(p \<mapsto> File (c @ s)) | _ \<Rightarrow> t)
      else (Inl UnicodeEncodeError, t))"

section \<open>The journal file manager\<close>

definition ensure_year_file :: "fs \<Rightarrow> path \<Rightarrow> datetime \<Rightarrow> (error + path) \<times> fs" where
  "ensure_year_file t notes_dir dt =
     (case mkdir_parents_exist_ok t notes_dir of
        (Inl e, t1) \<Rightarrow> (Inl e, t1)
      | (Inr _, t1) \<Rightarrow>
          let path = notes_dir @ [dec (year dt) @ ascii ''.md''] in
          if \<not> path_exists t1 path then
            (case touch t1 path of
               (Inl e, t2) \<Rightarrow> (Inl e, t2)
             | (Inr _, t2) \<Rightarrow> (Inr path, t2))
          else (Inr path, t1))"

text \<open>
  \<^verbatim>\<open>^#\s+{date_header}\s*$\<close>, from the position where \<^verbatim>\<open>^\<close> has matched.
\<close>

definition header_pat :: "str \<Rightarrow> str \<Rightarrow> bool" where
  "header_pat date_header s \<longleftrightarrow>
     lit_then (ascii ''#'')
       (atleast_then (Suc 0) isspace (lit_then date_header (star_then isspace at_eol))) s"

text \<open>
  \<^verbatim>\<open>re.search\<close> with \<^verbatim>\<open>re.MULTILINE\<close> for a pattern that starts with \<^verbatim>\<open>^\<close>: the pattern is
  tried at the start of the subject and after every line feed; \<open>bol\<close> tells whether
  the current position is such a place.
\<close>

fun re_search_m :: "(str \<Rightarrow> bool) \<Rightarrow> bool \<Rightarrow> str \<Rightarrow> bool" where
  "re_search_m pat bol [] = (bol \<and> pat [])"
| "re_search_m pat bol (c # cs) = ((bol \<and> pat (c # cs)) \<or> re_search_m pat (c = nl) cs)"

definition header_search :: "str \<Rightarrow> str \<Rightarrow> bool" where
  "header_search date_header content = re_search_m (header_pat date_header) True content"

definition ensure_date_header :: "fs \<Rightarrow> path \<Rightarrow> datetime \<Rightarrow> (error + unit) \<times> fs" where
  "ensure_date_header t path dt =
     (let date_header = strftime_mdY dt in
      case (if path_exists t path then read_text t path else Inr []) of
        Inl e \<Rightarrow> (Inl e, t)
      | Inr content \<Rightarrow>
          if header_search date_header content then (Inr (), t)
          else
            (case open_append t path of
               (Inl e, t1) \<Rightarrow> (Inl e, t1)
             | (Inr _, t1) \<Rightarrow>
                 (case (if content \<noteq> [] \<and> \<not> endswith_nl content
                        then fwrite t1 path [nl] else (Inr (), t1)) of
                    (Inl e, t2) \<Rightarrow> (Inl e, t2)
                  | (Inr _, t2) \<Rightarrow>
                      (case (if content \<noteq> [] then fwrite t2 path [nl] else (Inr (), t2)) of
                         (Inl e, t3) \<Rightarrow> (Inl e, t3)
                       | (Inr _, t3) \<Rightarrow>
                           fwrite t3 path (ascii ''# '' @ date_header @ [nl, nl])))))"

fun write_lines :: "fs \<Rightarrow> path \<Rightarrow> str list \<Rightarrow> (error + unit) \<times> fs" where
  "write_lines t path [] = (Inr (), t)"
| "write_lines t path (line # ls) =
     (case fwrite t path (line @ [nl]) of
        (Inl e, t1) \<Rightarrow> (Inl e, t1)
      | (Inr _, t1) \<Rightarrow> write_lines t1 path ls)"

definition append_lines_under_today ::
  "fs \<Rightarrow> path \<Rightarrow> datetime \<Rightarrow> str list \<Rightarrow> (error + unit) \<times> fs" where
  "append_lines_under_today t path dt ls =
     (case open_append t path of
        (Inl e, t1) \<Rightarrow> (Inl e, t1)
      | (Inr _, t1) \<Rightarrow> write_lines t1 path ls)"


section \<open>Notions of the specification\<close>

text \<open>
  The lines of a text, as \<^verbatim>\<open>text.split("\n")\<close> gives them: the pieces between the line
  feeds. The specification speaks of a line of the file that equals the header.
\<close>

fun split_nl :: "str \<Rightarrow> str list" where
  "split_nl [] = [[]]"
| "split_nl (c # cs) =
     (if c = nl then [] # split_nl cs
      else (case split_nl cs of [] \<Rightarrow> [[c]] | l # ls \<Rightarrow> (c # l) # ls))"

text \<open>
  The number of headers of a date in a text: the number of places where the pattern of
  \<open>ensure_date_header\<close> for that date matches.
\<close>

fun re_count_m :: "(str \<Rightarrow> bool) \<Rightarrow> bool \<Rightarrow> str \<Rightarrow> nat" where
  "re_count_m pat bol [] = (if bol \<and> pat [] then 1 else 0)"
| "re_count_m pat bol (c # cs) =
     (if bol \<and> pat (c # cs) then 1 else 0) + re_count_m pat (c = nl) cs"

definition header_count :: "str \<Rightarrow> str \<Rightarrow> nat" where
  "header_count date_header content = re_count_m (header_pat date_header) True content"

text \<open>The text that \<open>write_lines\<close> appends: every line followed by a line feed.\<close>

definition joined :: "str list \<Rightarrow> str" where
  "joined ls = concat (map (\<lambda>l. l @ [nl]) ls)"

text \<open>
  The text that \<open>ensure_date_header\<close> appends to a file with the given content when the
  header is missing; the three pieces are the three \<^verbatim>\<open>write\<close> calls.
\<close>

definition header_block :: "str \<Rightarrow> str \<Rightarrow> str" where
  "header_block content date_header =
     (if content \<noteq> [] \<and> \<not> endswith_nl content then [nl] else []) @
     (if content \<noteq> [] then [nl] else []) @
     (ascii ''# '' @ date_header @ [nl, nl])"


text \<open>
  A text without a line break. A line feed ends a line of the file; a carriage return
  is excluded with it because \<^verbatim>\<open>read_text\<close> reads in universal-newlines mode, where a
  carriage return written to a file comes back as a line feed.
\<close>

definition no_line_break :: "str \<Rightarrow> bool" where
  "no_line_break s \<longleftrightarrow> nl \<notin> set s \<and> 13 \<notin> set s"








section \<open>Properties of the matchers and of stripping\<close>

lemma star_then_iff:
  "star_then cls k s \<longleftrightarrow> (\<exists>n\<le>length s. list_all cls (take n s) \<and> k (drop n s))"
proof (induction s)
  case Nil
  then show ?case by simp
next
  case (Cons c cs)
  show ?case
  proof
    assume "star_then cls k (c # cs)"
    then consider (more) "cls c" "star_then cls k cs" | (stop) "k (c # cs)"
      by auto
    then show "\<exists>n\<le>length (c # cs). list_all cls (take n (c # cs)) \<and> k (drop n (c # cs))"
    proof cases
      case more
      then obtain n where "n \<le> length cs" "list_all cls (take n cs)" "k (drop n cs)"
        using Cons.IH by auto
      with more(1) show ?thesis
        by (intro exI [of _ "Suc n"]) simp
    next
      case stop
      then show ?thesis
        by (intro exI [of _ 0]) simp
    qed
  next
    assume "\<exists>n\<le>length (c # cs). list_all cls (take n (c # cs)) \<and> k (drop n (c # cs))"
    then obtain n where n: "n \<le> length (c # cs)" "list_all cls (take n (c # cs))"
      "k (drop n (c # cs))"
      by blast
    show "star_then cls k (c # cs)"
    proof (cases n)
      case 0
      with n show ?thesis by simp
    next
      case (Suc m)
      with n have "m \<le> length cs" "list_all cls (take m cs)" "k (drop m cs)" "cls c"
        by simp_all
      with Cons.IH show ?thesis by auto
    qed
  qed
qed

lemma atleast_then_iff:
  "atleast_then m cls k s \<longleftrightarrow>
     (\<exists>n. m \<le> n \<and> n \<le> length s \<and> list_all cls (take n s) \<and> k (drop n s))"
proof (induction m cls k s rule: atleast_then.induct)
  case (1 cls k s)
  then show ?case by (simp add: star_then_iff)
next
  case (2 n cls k)
  then show ?case by simp
next
  case (3 m cls k c cs)
  show ?case
  proof
    assume "atleast_then (Suc m) cls k (c # cs)"
    then have c: "cls c" and "atleast_then m cls k cs"
      by simp_all
    then obtain n where "m \<le> n" "n \<le> length cs" "list_all cls (take n cs)" "k (drop n cs)"
      using "3.IH" by auto
    with c show "\<exists>n\<ge>Suc m. n \<le> length (c # cs) \<and> list_all cls (take n (c # cs)) \<and>
        k (drop n (c # cs))"
      by (intro exI [of _ "Suc n"]) simp
  next
    assume "\<exists>n\<ge>Suc m. n \<le> length (c # cs) \<and> list_all cls (take n (c # cs)) \<and>
        k (drop n (c # cs))"
    then obtain n where n: "Suc m \<le> n" "n \<le> length (c # cs)"
      "list_all cls (take n (c # cs))" "k (drop n (c # cs))"
      by blast
    then obtain n' where "n = Suc n'"
      by (cases n) simp_all
    with n have "m \<le> n'" "n' \<le> length cs" "list_all cls (take n' cs)" "k (drop n' cs)"
      "cls c"
      by simp_all
    with "3.IH" show "atleast_then (Suc m) cls k (c # cs)"
      by auto
  qed
qed

lemmas eval_defs = render_note_lines_def clean_tags_def strip_def lstrip_def rstrip_def
  ascii_def isspace_def is_ticket_def upper_AZ_def lit_then_def is_decimal_def
  decimal_zeros_def at_end_def at_eol_def nl_def endswith_nl_def Let_def

lemma is_ticket_shape:
  "is_ticket tag \<longleftrightarrow>
     (\<exists>u ds. tag = u @ ascii ''-'' @ ds \<and> 2 \<le> length u \<and> list_all upper_AZ u \<and>
        ds \<noteq> [] \<and> list_all is_decimal ds)"
proof
  assume "is_ticket tag"
  then obtain n where n: "2 \<le> n" "n \<le> length tag" "list_all upper_AZ (take n tag)"
    and rest: "lit_then (ascii ''-'') (atleast_then (Suc 0) is_decimal at_end) (drop n tag)"
    unfolding is_ticket_def atleast_then_iff [of "Suc (Suc 0)"] by (auto simp: numeral_2_eq_2)
  define r where "r = drop n tag"
  from rest have hy: "take 1 r = ascii ''-''"
    and ds: "atleast_then (Suc 0) is_decimal at_end (drop 1 r)"
    by (simp_all add: lit_then_def ascii_def r_def)
  from ds obtain m where m: "1 \<le> m" "m \<le> length (drop 1 r)"
    "list_all is_decimal (take m (drop 1 r))" "drop m (drop 1 r) = []"
    unfolding atleast_then_iff at_end_def by auto
  from m(2,4) have all: "take m (drop 1 r) = drop 1 r"
    by simp
  have "ascii ''-'' @ drop 1 r = r"
    using append_take_drop_id [of 1 r] unfolding hy .
  then have "tag = take n tag @ ascii ''-'' @ drop 1 r"
    by (simp add: r_def)
  moreover have "drop 1 r \<noteq> []"
    using m(1,2) by auto
  moreover have "list_all is_decimal (drop 1 r)"
    using m(3) all by simp
  moreover have "2 \<le> length (take n tag)"
    using n(1,2) by simp
  ultimately show "\<exists>u ds. tag = u @ ascii ''-'' @ ds \<and> 2 \<le> length u \<and>
      list_all upper_AZ u \<and> ds \<noteq> [] \<and> list_all is_decimal ds"
    using n(3) by blast
next
  assume "\<exists>u ds. tag = u @ ascii ''-'' @ ds \<and> 2 \<le> length u \<and> list_all upper_AZ u \<and>
      ds \<noteq> [] \<and> list_all is_decimal ds"
  then obtain u ds where t: "tag = u @ ascii ''-'' @ ds" and u: "2 \<le> length u"
    "list_all upper_AZ u" and ds: "ds \<noteq> []" "list_all is_decimal ds"
    by blast
  have "atleast_then (Suc 0) is_decimal at_end ds"
    unfolding atleast_then_iff at_end_def
    using ds by (intro exI [of _ "length ds"]) (cases ds, simp_all)
  then have "lit_then (ascii ''-'') (atleast_then (Suc 0) is_decimal at_end) (ascii ''-'' @ ds)"
    by (simp add: lit_then_def)
  then show "is_ticket tag"
    unfolding is_ticket_def atleast_then_iff [of "Suc (Suc 0)"]
    using u t by (intro exI [of _ "length u"]) simp
qed

lemma rstrip_Nil: "rstrip [] = []"
  by (simp add: rstrip_def)

lemma rstrip_all_space: "list_all isspace s \<Longrightarrow> rstrip s = []"
  by (simp add: rstrip_def list_all_iff)

lemma rstrip_empty_iff: "rstrip s = [] \<longleftrightarrow> list_all isspace s"
  by (auto simp: rstrip_def list_all_iff dropWhile_eq_Nil_conv)

lemma rstrip_nonspace: "\<not> isspace c \<Longrightarrow> rstrip (a @ c # b) = a @ c # rstrip b"
proof -
  assume c: "\<not> isspace c"
  have "dropWhile isspace (rev b @ c # rev a) =
      (if list_all isspace b then c # rev a else dropWhile isspace (rev b) @ c # rev a)"
    using c by (auto simp: dropWhile_append list_all_iff dropWhile_eq_Nil_conv)
  then show ?thesis
    by (auto simp: rstrip_def list_all_iff)
qed

lemma rstrip_id: "s \<noteq> [] \<Longrightarrow> \<not> isspace (last s) \<Longrightarrow> rstrip s = s"
proof -
  assume "s \<noteq> []" "\<not> isspace (last s)"
  then have "rstrip (butlast s @ last s # []) = butlast s @ last s # rstrip []"
    by (intro rstrip_nonspace)
  with \<open>s \<noteq> []\<close> show ?thesis
    by (simp add: rstrip_Nil)
qed

lemma rstrip_last: "rstrip s \<noteq> [] \<Longrightarrow> \<not> isspace (last (rstrip s))"
  unfolding rstrip_def by (simp add: last_rev hd_dropWhile)

lemma strip_empty_iff: "strip s = [] \<longleftrightarrow> list_all isspace s"
proof
  assume "list_all isspace s"
  then show "strip s = []"
    by (simp add: strip_def lstrip_def rstrip_all_space)
next
  assume e: "strip s = []"
  have "rstrip s = []"
  proof (rule ccontr)
    assume ne: "rstrip s \<noteq> []"
    then have "\<not> isspace (last (rstrip s))"
      by (rule rstrip_last)
    moreover from e have "\<forall>c\<in>set (rstrip s). isspace c"
      by (simp add: strip_def lstrip_def dropWhile_eq_Nil_conv)
    ultimately show False
      using ne last_in_set by blast
  qed
  then show "list_all isspace s"
    by (simp add: rstrip_empty_iff)
qed





lemma person_loop_eq:
  "person_loop m ts ls = ls @ map (\<lambda>t. rstrip (ascii ''* '' @ t @ ascii '': '' @ m)) ts"
  by (induction ts arbitrary: ls) simp_all

lemma ticket_loop_eq:
  "ticket_loop m ts ls =
     ls @ concat (map (\<lambda>t. [ascii ''* '' @ t, rstrip (ascii ''    * '' @ m)]) ts)"
  by (induction ts arbitrary: ls) simp_all

lemma clean_tags_alt:
  "clean_tags tags = map strip (filter (\<lambda>t. \<not> list_all isspace t) tags)"
proof -
  have "(t \<noteq> [] \<and> strip t \<noteq> []) = (\<not> list_all isspace t)" for t
    by (auto simp: strip_empty_iff)
  then show ?thesis
    by (simp add: clean_tags_def)
qed



lemma clean_tags_empty_iff: "clean_tags tags = [] \<longleftrightarrow> list_all (list_all isspace) tags"
  by (simp add: clean_tags_alt filter_empty_conv list_all_iff)


lemma render_no_tags:
  "clean_tags tags = [] \<Longrightarrow> lines (render_note_lines m tags) = [rstrip (ascii ''* '' @ m)]"
  by (simp add: render_note_lines_def)

lemma rstrip_append: "\<not> list_all isspace m \<Longrightarrow> rstrip (p @ m) = p @ rstrip m"
proof -
  assume "\<not> list_all isspace m"
  then obtain c where "c \<in> set m" "\<not> isspace c"
    by (auto simp: list_all_iff)
  then obtain a b where m: "m = a @ c # b"
    by (meson split_list)
  have "rstrip ((p @ a) @ c # b) = (p @ a) @ c # rstrip b"
    using \<open>\<not> isspace c\<close> by (rule rstrip_nonspace)
  moreover have "rstrip (a @ c # b) = a @ c # rstrip b"
    using \<open>\<not> isspace c\<close> by (rule rstrip_nonspace)
  ultimately show ?thesis
    by (simp add: m)
qed

lemma rstrip_bullet:
  "rstrip (ascii ''* '' @ m) = (if list_all isspace m then ascii ''*'' else ascii ''* '' @ rstrip m)"
proof (cases "list_all isspace m")
  case True
  have "\<not> isspace 42"
    by (simp add: isspace_def)
  then have "rstrip ([] @ 42 # (32 # m)) = [] @ 42 # rstrip (32 # m)"
    by (rule rstrip_nonspace)
  moreover have "list_all isspace (32 # m)"
    using True by (simp add: isspace_def)
  ultimately show ?thesis
    using True by (simp add: ascii_def rstrip_all_space)
next
  case False
  then show ?thesis
    by (simp add: rstrip_append)
qed

lemma mset_clean_tags: "mset tags = mset tags' \<Longrightarrow> mset (clean_tags tags) = mset (clean_tags tags')"
  by (simp add: clean_tags_def)

lemma sort_filter_cong:
  "mset xs = mset ys \<Longrightarrow> sort (filter P xs) = sort (filter P ys)"
proof -
  assume "mset xs = mset ys"
  then have "mset (sort (filter P ys)) = mset (filter P xs)"
    by simp
  then show ?thesis
    by (rule properties_for_sort) simp
qed

lemma render_perm:
  "mset tags = mset tags' \<Longrightarrow> render_note_lines m tags = render_note_lines m tags'"
proof -
  assume "mset tags = mset tags'"
  then have c: "mset (clean_tags tags) = mset (clean_tags tags')"
    by (rule mset_clean_tags)
  have "length (clean_tags tags) = length (clean_tags tags')"
    using c by (rule mset_eq_length)
  then have e: "(clean_tags tags = []) = (clean_tags tags' = [])"
    by (cases "clean_tags tags"; cases "clean_tags tags'") simp_all
  have s: "sort (filter P (clean_tags tags)) = sort (filter P (clean_tags tags'))" for P
    using c by (rule sort_filter_cong)
  show ?thesis
    unfolding render_note_lines_def Let_def s e ..
qed

section \<open>Tag classification\<close>

text \<open>
  C4. \<open>is_ticket\<close> is a total function of the text of the tag alone, and it holds
  exactly when the whole tag is two or more letters from A to Z, then a hyphen, then one
  or more digits (the class \<^verbatim>\<open>\d\<close>) and nothing else. Every tag therefore falls into
  exactly one of the two groups that the renderer forms: the ticket-like tags and the
  person-like ones.
\<close>

theorem is_ticket_classification:
  "(is_ticket tag \<longleftrightarrow>
      (\<exists>u ds. tag = u @ ascii ''-'' @ ds \<and> 2 \<le> length u \<and> list_all upper_AZ u \<and>
         ds \<noteq> [] \<and> list_all is_decimal ds)) \<and>
   mset (filter (\<lambda>t. \<not> is_ticket t) tags) + mset (filter is_ticket tags) = mset tags"
  using is_ticket_shape [of tag] by simp

section \<open>Rendering without tags\<close>



section \<open>Rendering is independent of the order of the tags\<close>

text \<open>
  C3. Two tag lists that are permutations of each other (the same tags, each as often)
  render to the same sequence of lines, for every message.
\<close>

theorem render_permutation_invariant:
  "mset tags = mset tags' \<Longrightarrow>
   lines (render_note_lines m tags) = lines (render_note_lines m tags')"
  by (rule arg_cong [OF render_perm])

theorem render_permutation_invariant_witness:
  "mset [ascii ''DT-99'', ascii ''alice'', ascii ''Chris''] =
     mset [ascii ''Chris'', ascii ''DT-99'', ascii ''alice''] \<and>
   lines (render_note_lines (ascii ''sync'') [ascii ''DT-99'', ascii ''alice'', ascii ''Chris'']) =
     lines (render_note_lines (ascii ''sync'') [ascii ''Chris'', ascii ''DT-99'', ascii ''alice''])"
proof -
  have h: "mset [ascii ''DT-99'', ascii ''alice'', ascii ''Chris''] =
      mset [ascii ''Chris'', ascii ''DT-99'', ascii ''alice'']"
    by (simp add: ascii_def)
  show ?thesis
    using h render_permutation_invariant [OF h, of "ascii ''sync''"] by simp
qed

section \<open>Properties of the header pattern\<close>

lemma lit_then_iff: "lit_then l k s \<longleftrightarrow> (\<exists>r. s = l @ r \<and> k r)"
proof
  assume "lit_then l k s"
  then have "take (length l) s = l" "k (drop (length l) s)"
    by (simp_all add: lit_then_def)
  moreover have "s = take (length l) s @ drop (length l) s"
    by simp
  ultimately have "s = l @ drop (length l) s \<and> k (drop (length l) s)"
    by simp
  then show "\<exists>r. s = l @ r \<and> k r" ..
next
  assume "\<exists>r. s = l @ r \<and> k r"
  then show "lit_then l k s"
    by (auto simp: lit_then_def)
qed

lemma star_then_split:
  "star_then cls k s \<longleftrightarrow> (\<exists>v r. s = v @ r \<and> list_all cls v \<and> k r)"
proof
  assume "star_then cls k s"
  then obtain n where "list_all cls (take n s)" "k (drop n s)"
    unfolding star_then_iff by blast
  moreover have "s = take n s @ drop n s"
    by simp
  ultimately show "\<exists>v r. s = v @ r \<and> list_all cls v \<and> k r"
    by blast
next
  assume "\<exists>v r. s = v @ r \<and> list_all cls v \<and> k r"
  then obtain v r where "s = v @ r" "list_all cls v" "k r"
    by blast
  then show "star_then cls k s"
    unfolding star_then_iff by (intro exI [of _ "length v"]) simp
qed

lemma plus_then_split:
  "atleast_then (Suc 0) cls k s \<longleftrightarrow> (\<exists>v r. s = v @ r \<and> v \<noteq> [] \<and> list_all cls v \<and> k r)"
proof
  assume "atleast_then (Suc 0) cls k s"
  then obtain n where n: "Suc 0 \<le> n" "n \<le> length s" "list_all cls (take n s)" "k (drop n s)"
    unfolding atleast_then_iff by blast
  have "s = take n s @ drop n s"
    by simp
  moreover have "take n s \<noteq> []"
    using n(1,2) by auto
  ultimately show "\<exists>v r. s = v @ r \<and> v \<noteq> [] \<and> list_all cls v \<and> k r"
    using n(3,4) by blast
next
  assume "\<exists>v r. s = v @ r \<and> v \<noteq> [] \<and> list_all cls v \<and> k r"
  then obtain v r where v: "s = v @ r" "v \<noteq> []" "list_all cls v" "k r"
    by blast
  then have "Suc 0 \<le> length v"
    by (cases v) simp_all
  with v show "atleast_then (Suc 0) cls k s"
    unfolding atleast_then_iff by (intro exI [of _ "length v"]) simp
qed

lemma header_pat_iff:
  "header_pat d s \<longleftrightarrow>
     (\<exists>w v r. s = ascii ''#'' @ w @ d @ v @ r \<and> w \<noteq> [] \<and> list_all isspace w \<and>
        list_all isspace v \<and> at_eol r)"
proof
  assume "header_pat d s"
  then obtain r1 where r1: "s = ascii ''#'' @ r1"
    "atleast_then (Suc 0) isspace (lit_then d (star_then isspace at_eol)) r1"
    unfolding header_pat_def lit_then_iff [of "ascii ''#''"] by blast
  from r1(2) obtain w r2 where w: "r1 = w @ r2" "w \<noteq> []" "list_all isspace w"
    "lit_then d (star_then isspace at_eol) r2"
    unfolding plus_then_split by blast
  from w(4) obtain r3 where r3: "r2 = d @ r3" "star_then isspace at_eol r3"
    unfolding lit_then_iff by blast
  from r3(2) obtain v r where v: "r3 = v @ r" "list_all isspace v" "at_eol r"
    unfolding star_then_split by blast
  have "s = ascii ''#'' @ w @ d @ v @ r"
    by (simp add: r1(1) w(1) r3(1) v(1))
  with w(2,3) v(2,3) show "\<exists>w v r. s = ascii ''#'' @ w @ d @ v @ r \<and> w \<noteq> [] \<and>
      list_all isspace w \<and> list_all isspace v \<and> at_eol r"
    by blast
next
  assume "\<exists>w v r. s = ascii ''#'' @ w @ d @ v @ r \<and> w \<noteq> [] \<and> list_all isspace w \<and>
      list_all isspace v \<and> at_eol r"
  then obtain w v r where h: "s = ascii ''#'' @ w @ d @ v @ r" "w \<noteq> []" "list_all isspace w"
    "list_all isspace v" "at_eol r"
    by blast
  have "star_then isspace at_eol (v @ r)"
    unfolding star_then_split using h(4,5) by blast
  then have "lit_then d (star_then isspace at_eol) (d @ v @ r)"
    unfolding lit_then_iff by blast
  then have "atleast_then (Suc 0) isspace (lit_then d (star_then isspace at_eol)) (w @ d @ v @ r)"
    unfolding plus_then_split using h(2,3) by blast
  then show "header_pat d s"
    unfolding header_pat_def lit_then_iff [of "ascii ''#''"] using h(1) by blast
qed

lemma re_search_m_iff:
  "re_search_m pat bol s \<longleftrightarrow>
     (\<exists>pre post. s = pre @ post \<and> (if pre = [] then bol else last pre = nl) \<and> pat post)"
proof (induction s arbitrary: bol)
  case Nil
  then show ?case by simp
next
  case (Cons c cs)
  show ?case
  proof
    assume "re_search_m pat bol (c # cs)"
    then consider (here) "bol" "pat (c # cs)" | (later) "re_search_m pat (c = nl) cs"
      by auto
    then show "\<exists>pre post. c # cs = pre @ post \<and>
        (if pre = [] then bol else last pre = nl) \<and> pat post"
    proof cases
      case here
      then have "c # cs = [] @ (c # cs) \<and> (if [] = ([]::str) then bol else last [] = nl) \<and>
          pat (c # cs)"
        by simp
      then show ?thesis by blast
    next
      case later
      then obtain pre post where p: "cs = pre @ post"
        "if pre = [] then c = nl else last pre = nl" "pat post"
        using Cons.IH by blast
      then have "c # cs = (c # pre) @ post \<and>
          (if c # pre = [] then bol else last (c # pre) = nl) \<and> pat post"
        by (simp split: if_splits)
      then show ?thesis by blast
    qed
  next
    assume "\<exists>pre post. c # cs = pre @ post \<and>
        (if pre = [] then bol else last pre = nl) \<and> pat post"
    then obtain pre post where p: "c # cs = pre @ post"
      "if pre = [] then bol else last pre = nl" "pat post"
      by blast
    show "re_search_m pat bol (c # cs)"
    proof (cases pre)
      case Nil
      with p have "post = c # cs" "bol"
        by simp_all
      with p(3) show ?thesis by simp
    next
      case (Cons a pre')
      with p have "cs = pre' @ post" "if pre' = [] then c = nl else last pre' = nl"
        by (simp_all split: if_splits)
      with p(3) have "re_search_m pat (c = nl) cs"
        using Cons.IH by blast
      then show ?thesis by simp
    qed
  qed
qed

lemma header_search_iff:
  "header_search d c \<longleftrightarrow>
     (\<exists>pre w v post. c = pre @ ascii ''#'' @ w @ d @ v @ post \<and> (pre = [] \<or> last pre = nl) \<and>
        w \<noteq> [] \<and> list_all isspace w \<and> list_all isspace v \<and> (post = [] \<or> hd post = nl))"
proof -
  have eol: "at_eol r \<longleftrightarrow> (r = [] \<or> hd r = nl)" for r
    by (cases r) (simp_all add: at_eol_def)
  have bol: "(if pre = [] then True else last pre = nl) \<longleftrightarrow> (pre = [] \<or> last pre = nl)"
    for pre :: str
    by simp
  have "header_search d c \<longleftrightarrow>
      (\<exists>pre post'. c = pre @ post' \<and> (pre = [] \<or> last pre = nl) \<and> header_pat d post')"
    unfolding header_search_def re_search_m_iff bol ..
  also have "\<dots> \<longleftrightarrow> (\<exists>pre w v post. c = pre @ ascii ''#'' @ w @ d @ v @ post \<and>
      (pre = [] \<or> last pre = nl) \<and> w \<noteq> [] \<and> list_all isspace w \<and> list_all isspace v \<and>
      (post = [] \<or> hd post = nl))"
    unfolding header_pat_iff eol by blast
  finally show ?thesis .
qed

lemma split_nl_nonempty: "split_nl s \<noteq> []"
  by (induction s) (auto split: list.splits)

lemma split_nl_unfold:
  "split_nl s =
     takeWhile (\<lambda>c. c \<noteq> nl) s #
       (case dropWhile (\<lambda>c. c \<noteq> nl) s of [] \<Rightarrow> [] | _ # r \<Rightarrow> split_nl r)"
  by (induction s) simp_all

lemma split_nl_mem:
  "l \<in> set (split_nl s) \<Longrightarrow>
   \<exists>pre post. s = pre @ l @ post \<and> (pre = [] \<or> last pre = nl) \<and> (post = [] \<or> hd post = nl)"
proof (induction s arbitrary: l rule: length_induct)
  case (1 s)
  define a where "a = takeWhile (\<lambda>c. c \<noteq> nl) s"
  define b where "b = dropWhile (\<lambda>c. c \<noteq> nl) s"
  have s: "s = a @ b"
    by (simp add: a_def b_def)
  have b: "b = [] \<or> hd b = nl"
    using hd_dropWhile [of "\<lambda>c. c \<noteq> nl" s] by (auto simp: b_def)
  from "1.prems" have "l \<in> set (a # (case b of [] \<Rightarrow> [] | _ # r \<Rightarrow> split_nl r))"
    using split_nl_unfold [of s] by (simp add: a_def b_def)
  then consider (first) "l = a" | (rest) r where "b = nl # r" "l \<in> set (split_nl r)"
    using b by (cases b) auto
  then show ?case
  proof cases
    case first
    with s b have "s = [] @ l @ b \<and> (([]::str) = [] \<or> last [] = nl) \<and> (b = [] \<or> hd b = nl)"
      by simp
    then show ?thesis by blast
  next
    case rest
    have "length r < length s"
      using s rest(1) by simp
    then obtain pre post where p: "r = pre @ l @ post" "pre = [] \<or> last pre = nl"
      "post = [] \<or> hd post = nl"
      using "1.IH" rest(2) by blast
    have "s = (a @ nl # pre) @ l @ post \<and> (a @ nl # pre = [] \<or> last (a @ nl # pre) = nl) \<and>
        (post = [] \<or> hd post = nl)"
      using s rest(1) p by auto
    then show ?thesis by blast
  qed
qed

lemma exact_line_found:
  "ascii ''# '' @ d \<in> set (split_nl c) \<Longrightarrow> header_search d c"
proof -
  assume "ascii ''# '' @ d \<in> set (split_nl c)"
  then obtain pre post where p: "c = pre @ (ascii ''# '' @ d) @ post" "pre = [] \<or> last pre = nl"
    "post = [] \<or> hd post = nl"
    using split_nl_mem by blast
  have "c = pre @ ascii ''#'' @ [32] @ d @ [] @ post \<and> (pre = [] \<or> last pre = nl) \<and>
      [32] \<noteq> ([]::str) \<and> list_all isspace [32] \<and> list_all isspace [] \<and>
      (post = [] \<or> hd post = nl)"
    using p by (simp add: ascii_def isspace_def)
  then show ?thesis
    unfolding header_search_iff by blast
qed

section \<open>Properties of the formatted date\<close>

lemma dec_digits: "c \<in> set (dec n) \<Longrightarrow> 48 \<le> c \<and> c \<le> 57"
proof (induction n rule: dec.induct)
  case (1 n)
  show ?case
  proof (cases "n < 10")
    case True
    with "1.prems" show ?thesis
      by (simp add: dec.simps [of n])
  next
    case False
    with "1.prems" have "c \<in> set (dec (n div 10)) \<or> c = 48 + n mod 10"
      by (auto simp: dec.simps [of n])
    moreover have "n mod 10 < 10"
      by simp
    ultimately show ?thesis
      using "1.IH" [OF False] by auto
  qed
qed

lemma strftime_chars: "c \<in> set (strftime_mdY dt) \<Longrightarrow> 47 \<le> c \<and> c \<le> 57"
  by (auto simp: strftime_mdY_def zfill_def ascii_def dest!: dec_digits)


lemma strftime_encodable: "encodable (ascii ''# '' @ strftime_mdY dt @ [nl, nl])"
proof -
  have "\<not> surrogate c" if "c \<in> set (strftime_mdY dt)" for c
    using strftime_chars [OF that] by (simp add: surrogate_def)
  then show ?thesis
    by (auto simp: encodable_def list_ex_iff ascii_def nl_def surrogate_def)
qed


lemma strftime_example: "strftime_mdY \<lparr>year = 2025, month = 8, day = 14\<rparr> = ascii ''08/14/2025''"
  by (simp add: strftime_mdY_def zfill_def dec.simps ascii_def)

section \<open>Properties of reading a file\<close>

lemma universal_newlines_append:
  "universal_newlines b (xs @ ys) =
     universal_newlines b xs @ universal_newlines (if xs = [] then b else last xs = 13) ys"
  by (induction xs arbitrary: b) auto

lemma universal_newlines_id: "13 \<notin> set s \<Longrightarrow> universal_newlines False s = s"
  by (induction s) auto



section \<open>Properties of the file operations\<close>

lemma encodable_nl: "encodable [nl]"
  by (simp add: encodable_def nl_def surrogate_def)

lemma encodable_line: "encodable (l @ [nl]) \<longleftrightarrow> encodable l"
  by (auto simp: encodable_def list_ex_iff nl_def surrogate_def)

lemma fwrite_file:
  "encodable s \<Longrightarrow> t p = Some (File c) \<Longrightarrow> fwrite t p s = (Inr (), t(p \<mapsto> File (c @ s)))"
  by (simp add: fwrite_def)

lemma fwrite_error: "\<not> encodable s \<Longrightarrow> fwrite t p s = (Inl UnicodeEncodeError, t)"
  by (simp add: fwrite_def)

lemma joined_Nil: "joined [] = []"
  by (simp add: joined_def)

lemma joined_Cons: "joined (l # ls) = l @ nl # joined ls"
  by (simp add: joined_def)


lemma fwrite_upd:
  "encodable s \<Longrightarrow> fwrite (t(p \<mapsto> File c)) p s = (Inr (), t(p \<mapsto> File (c @ s)))"
  by (simp add: fwrite_def)

lemma write_lines_upd:
  "write_lines (t(p \<mapsto> File c)) p ls =
     (if list_all encodable ls then Inr () else Inl UnicodeEncodeError,
      t(p \<mapsto> File (c @ joined (takeWhile encodable ls))))"
proof (induction ls arbitrary: c)
  case Nil
  show ?case
    by (simp add: joined_Nil)
next
  case (Cons l ls)
  show ?case
  proof (cases "encodable l")
    case True
    then have "fwrite (t(p \<mapsto> File c)) p (l @ [nl]) = (Inr (), t(p \<mapsto> File (c @ l @ [nl])))"
      by (simp add: fwrite_upd encodable_line)
    then have e: "write_lines (t(p \<mapsto> File c)) p (l # ls) =
        write_lines (t(p \<mapsto> File (c @ l @ [nl]))) p ls"
      by simp
    have tw: "takeWhile encodable (l # ls) = l # takeWhile encodable ls"
      "list_all encodable (l # ls) = list_all encodable ls"
      using True by simp_all
    show ?thesis
      unfolding e Cons.IH [of "c @ l @ [nl]"] tw joined_Cons
      by (simp only: append_assoc append.simps)
  next
    case False
    then have "fwrite (t(p \<mapsto> File c)) p (l @ [nl]) = (Inl UnicodeEncodeError, t(p \<mapsto> File c))"
      by (simp add: fwrite_error encodable_line)
    then have e: "write_lines (t(p \<mapsto> File c)) p (l # ls) =
        (Inl UnicodeEncodeError, t(p \<mapsto> File c))"
      by simp
    have tw: "takeWhile encodable (l # ls) = []" "list_all encodable (l # ls) = False"
      using False by simp_all
    show ?thesis
      unfolding e tw joined_Nil by (simp only: append_Nil2 if_False)
  qed
qed

lemma write_lines_file:
  "t p = Some (File c) \<Longrightarrow>
   write_lines t p ls =
     (if list_all encodable ls then Inr () else Inl UnicodeEncodeError,
      t(p \<mapsto> File (c @ joined (takeWhile encodable ls))))"
proof -
  assume "t p = Some (File c)"
  then have "t(p \<mapsto> File c) = t"
    by (rule map_upd_triv)
  then show ?thesis
    using write_lines_upd [of t p c ls] by simp
qed

lemma open_append_file: "p \<noteq> [] \<Longrightarrow> t p = Some (File c) \<Longrightarrow> open_append t p = (Inr (), t)"
  by (simp add: open_append_def)

lemma open_append_new:
  "p \<noteq> [] \<Longrightarrow> t p = None \<Longrightarrow> is_dir t (butlast p) \<Longrightarrow>
   open_append t p = (Inr (), t(p \<mapsto> File []))"
  by (simp add: open_append_def)


lemma header_writes:
  assumes f: "t p = Some (File c)"
  shows "(case (if s \<noteq> [] \<and> \<not> endswith_nl s then fwrite t p [nl] else (Inr (), t)) of
        (Inl e, t2) \<Rightarrow> (Inl e, t2)
      | (Inr _, t2) \<Rightarrow>
          (case (if s \<noteq> [] then fwrite t2 p [nl] else (Inr (), t2)) of
             (Inl e, t3) \<Rightarrow> (Inl e, t3)
           | (Inr _, t3) \<Rightarrow> fwrite t3 p (ascii ''# '' @ strftime_mdY dt @ [nl, nl]))) =
     (Inr (), t(p \<mapsto> File (c @ header_block s (strftime_mdY dt))))"
proof -
  have w: "fwrite (t(p \<mapsto> File x)) p y = (Inr (), t(p \<mapsto> File (x @ y)))" if "encodable y" for x y
    using that by (simp add: fwrite_def)
  have w0: "fwrite t p y = (Inr (), t(p \<mapsto> File (c @ y)))" if "encodable y" for y
    using that f by (simp add: fwrite_def)
  have "t(p \<mapsto> File c) = t"
    using f by (rule map_upd_triv)
  then show ?thesis
    by (simp add: w0 w encodable_nl strftime_encodable header_block_def)
qed

lemma ensure_date_header_file:
  "p \<noteq> [] \<Longrightarrow> t p = Some (File c) \<Longrightarrow>
   ensure_date_header t p dt =
     (Inr (), if header_search (strftime_mdY dt) (universal_newlines False c) then t
              else t(p \<mapsto> File (c @
                header_block (universal_newlines False c) (strftime_mdY dt))))"
proof -
  assume p: "p \<noteq> []" and f: "t p = Some (File c)"
  have r: "(if path_exists t p then read_text t p else Inr []) = Inr (universal_newlines False c)"
    using p f by (simp add: path_exists_def read_text_def)
  show ?thesis
  proof (cases "header_search (strftime_mdY dt) (universal_newlines False c)")
    case True
    then show ?thesis
      unfolding ensure_date_header_def Let_def r by simp
  next
    case False
    then show ?thesis
      unfolding ensure_date_header_def Let_def r open_append_file [of p t c, OF p f]
      using header_writes [where t = t and p = p and c = c and s = "universal_newlines False c"
          and dt = dt, OF f]
      by simp
  qed
qed



lemma header_block_nonempty: "header_block c d \<noteq> []"
  by (simp add: header_block_def ascii_def)

lemma append_lines_file:
  "p \<noteq> [] \<Longrightarrow> t p = Some (File c) \<Longrightarrow>
   append_lines_under_today t p dt ls =
     (if list_all encodable ls then Inr () else Inl UnicodeEncodeError,
      t(p \<mapsto> File (c @ joined (takeWhile encodable ls))))"
  by (simp add: append_lines_under_today_def open_append_file write_lines_file)

lemma append_lines_new:
  "p \<noteq> [] \<Longrightarrow> t p = None \<Longrightarrow> is_dir t (butlast p) \<Longrightarrow>
   append_lines_under_today t p dt ls =
     (if list_all encodable ls then Inr () else Inl UnicodeEncodeError,
      t(p \<mapsto> File (joined (takeWhile encodable ls))))"
proof -
  assume p: "p \<noteq> []" and f: "t p = None" and d: "is_dir t (butlast p)"
  show ?thesis
    by (simp add: append_lines_under_today_def open_append_new [of p t, OF p f d] write_lines_upd)
qed

lemma takeWhile_all: "list_all P xs \<Longrightarrow> takeWhile P xs = xs"
  by (induction xs) simp_all

lemma split_nl_joined:
  "\<forall>l\<in>set ls. nl \<notin> set l \<Longrightarrow> split_nl (joined ls) = ls @ [[]]"
proof (induction ls)
  case Nil
  then show ?case by (simp add: joined_def)
next
  case (Cons l ls)
  then have l: "nl \<notin> set l" and IH: "split_nl (joined ls) = ls @ [[]]"
    by simp_all
  have j: "joined (l # ls) = l @ nl # joined ls"
    by (simp add: joined_def)
  have all: "\<forall>x\<in>set l. x \<noteq> nl"
    using l by auto
  have "takeWhile (\<lambda>c. c \<noteq> nl) (l @ nl # joined ls) = takeWhile (\<lambda>c. c \<noteq> nl) l"
    by (rule takeWhile_tail) simp
  then have "takeWhile (\<lambda>c. c \<noteq> nl) (l @ nl # joined ls) = l"
    using all by (simp add: takeWhile_eq_all_conv)
  moreover have "dropWhile (\<lambda>c. c \<noteq> nl) (l @ nl # joined ls) =
      dropWhile (\<lambda>c. c \<noteq> nl) l @ nl # joined ls"
    by (rule dropWhile_append3) simp
  then have "dropWhile (\<lambda>c. c \<noteq> nl) (l @ nl # joined ls) = nl # joined ls"
    using all by (simp add: dropWhile_eq_Nil_conv)
  ultimately have "split_nl (l @ nl # joined ls) = l # split_nl (joined ls)"
    using split_nl_unfold [of "l @ nl # joined ls"] by simp
  then show ?case
    by (simp add: j IH)
qed

lemmas search_eval_defs = header_search_def header_pat_def header_count_def lit_then_def
  at_eol_def isspace_def ascii_def nl_def endswith_nl_def

section \<open>Properties of the year file\<close>

lemma mkdir_from_ok:
  "(\<And>k c. 1 \<le> k \<Longrightarrow> k \<le> length cs \<Longrightarrow> t (pre @ take k cs) \<noteq> Some (File c)) \<Longrightarrow>
   mkdir_from t pre cs =
     (Inr (), \<lambda>q. if (\<exists>k. 1 \<le> k \<and> k \<le> length cs \<and> q = pre @ take k cs) \<and> t q = None
                  then Some Dir else t q)"
proof (induction cs arbitrary: t pre)
  case Nil
  then show ?case by auto
next
  case (Cons a cs)
  define p1 where "p1 = pre @ [a]"
  have p1: "t p1 \<noteq> Some (File c)" for c
    using Cons.prems [of 1 c] by (simp add: p1_def)
  define t1 where "t1 = (case t p1 of None \<Rightarrow> t(p1 \<mapsto> Dir) | Some _ \<Rightarrow> t)"
  have step: "mkdir_from t pre (a # cs) = mkdir_from t1 p1 cs"
    using p1 by (cases "t p1") (auto simp: t1_def p1_def split: node.splits)
  have t1_other: "t1 q = t q" if "q \<noteq> p1" for q
    using that by (simp add: t1_def split: option.splits)
  have t1_p1: "t1 p1 = Some Dir"
    using p1 by (cases "t p1") (auto simp: t1_def split: node.splits intro: node.exhaust)
  have pre1: "t1 (p1 @ take k cs) \<noteq> Some (File c)" if "1 \<le> k" "k \<le> length cs" for k c
  proof -
    have "p1 @ take k cs \<noteq> p1"
      using that by (cases cs) auto
    then have "t1 (p1 @ take k cs) = t (pre @ take (Suc k) (a # cs))"
      by (simp add: t1_other p1_def)
    then show ?thesis
      using Cons.prems [of "Suc k" c] that by simp
  qed
  have IH: "mkdir_from t1 p1 cs =
      (Inr (), \<lambda>q. if (\<exists>k. 1 \<le> k \<and> k \<le> length cs \<and> q = p1 @ take k cs) \<and> t1 q = None
                   then Some Dir else t1 q)"
    by (rule Cons.IH) (use pre1 in blast)
  have ex: "(\<exists>k. 1 \<le> k \<and> k \<le> length (a # cs) \<and> q = pre @ take k (a # cs)) \<longleftrightarrow>
      q = p1 \<or> (\<exists>k. 1 \<le> k \<and> k \<le> length cs \<and> q = p1 @ take k cs)" for q
  proof
    assume "\<exists>k. 1 \<le> k \<and> k \<le> length (a # cs) \<and> q = pre @ take k (a # cs)"
    then obtain k where k: "1 \<le> k" "k \<le> length (a # cs)" "q = pre @ take k (a # cs)"
      by blast
    then obtain j where j: "k = Suc j"
      by (cases k) auto
    show "q = p1 \<or> (\<exists>k. 1 \<le> k \<and> k \<le> length cs \<and> q = p1 @ take k cs)"
    proof (cases j)
      case 0
      with k j show ?thesis by (simp add: p1_def)
    next
      case (Suc i)
      with k j have "1 \<le> j \<and> j \<le> length cs \<and> q = p1 @ take j cs"
        by (simp add: p1_def)
      then show ?thesis by blast
    qed
  next
    assume "q = p1 \<or> (\<exists>k. 1 \<le> k \<and> k \<le> length cs \<and> q = p1 @ take k cs)"
    then consider "q = p1" | k where "1 \<le> k" "k \<le> length cs" "q = p1 @ take k cs"
      by blast
    then show "\<exists>k. 1 \<le> k \<and> k \<le> length (a # cs) \<and> q = pre @ take k (a # cs)"
    proof cases
      case 1
      then have "1 \<le> (1::nat) \<and> 1 \<le> length (a # cs) \<and> q = pre @ take 1 (a # cs)"
        by (simp add: p1_def)
      then show ?thesis by blast
    next
      case 2
      then have "1 \<le> Suc k \<and> Suc k \<le> length (a # cs) \<and> q = pre @ take (Suc k) (a # cs)"
        by (simp add: p1_def)
      then show ?thesis by blast
    qed
  qed
  have "(if (\<exists>k. 1 \<le> k \<and> k \<le> length cs \<and> q = p1 @ take k cs) \<and> t1 q = None
         then Some Dir else t1 q) =
        (if (\<exists>k. 1 \<le> k \<and> k \<le> length (a # cs) \<and> q = pre @ take k (a # cs)) \<and> t q = None
         then Some Dir else t q)" for q
  proof (cases "q = p1")
    case True
    then show ?thesis
      unfolding ex using t1_p1 by (auto simp: t1_def split: option.splits)
  next
    case False
    then show ?thesis
      unfolding ex by (auto simp: t1_other)
  qed
  then show ?case
    unfolding step IH by simp
qed

lemma dec_length: "length (dec n) = (if n < 10 then 1 else Suc (length (dec (n div 10))))"
  by (subst dec.simps) simp

lemma dec_four_digits: "1000 \<le> n \<Longrightarrow> n \<le> 9999 \<Longrightarrow> length (dec n) = 4"
proof -
  assume a: "1000 \<le> n" "n \<le> 9999"
  then have "\<not> n < 10" "\<not> n div 10 < 10" "\<not> n div 10 div 10 < 10" "n div 10 div 10 div 10 < 10"
    by arith+
  then show ?thesis
    by (simp add: dec_length [of n] dec_length [of "n div 10"] dec_length [of "n div 10 div 10"]
        dec_length [of "n div 10 div 10 div 10"])
qed

lemma ensure_year_file_ok:
  assumes "\<And>k c. 1 \<le> k \<Longrightarrow> k \<le> length nd \<Longrightarrow> t (take k nd) \<noteq> Some (File c)"
  shows "ensure_year_file t nd dt =
     (Inr (nd @ [dec (year dt) @ ascii ''.md'']),
      \<lambda>q. if q = nd @ [dec (year dt) @ ascii ''.md''] \<and> t q = None then Some (File [])
           else if (\<exists>k. 1 \<le> k \<and> k \<le> length nd \<and> q = take k nd) \<and> t q = None then Some Dir
           else t q)"
proof -
  define path where "path = nd @ [dec (year dt) @ ascii ''.md'']"
  define t1 where "t1 = (\<lambda>q. if (\<exists>k. 1 \<le> k \<and> k \<le> length nd \<and> q = take k nd) \<and> t q = None
      then Some Dir else t q)"
  have mk: "mkdir_parents_exist_ok t nd = (Inr (), t1)"
    unfolding mkdir_parents_exist_ok_def t1_def
    using mkdir_from_ok [of nd t "[]"] assms by simp
  have not_prefix: "path \<noteq> take k nd" for k
  proof
    assume "path = take k nd"
    then have "length path = length (take k nd)"
      by simp
    then show False
      by (simp add: path_def)
  qed
  have t1_path: "t1 path = t path"
    by (simp add: t1_def not_prefix)
  have path_ne: "path \<noteq> []"
    by (simp add: path_def)
  have parent: "is_dir t1 (butlast path)"
  proof (cases "nd = []")
    case True
    then show ?thesis by (simp add: is_dir_def path_def)
  next
    case False
    then have k: "1 \<le> length nd \<and> length nd \<le> length nd \<and> nd = take (length nd) nd"
      by (cases nd) simp_all
    have "t nd \<noteq> Some (File c)" for c
      using assms [of "length nd" c] k by simp
    then have "t1 nd = Some Dir"
      using k by (cases "t nd") (auto simp: t1_def split: node.splits intro: node.exhaust)
    then show ?thesis
      by (simp add: is_dir_def path_def)
  qed
  have res: "(\<lambda>q. if q = path \<and> t q = None then Some (File [])
           else if (\<exists>k. 1 \<le> k \<and> k \<le> length nd \<and> q = take k nd) \<and> t q = None then Some Dir
           else t q) = (if t path = None then t1(path \<mapsto> File []) else t1)"
    by (rule ext) (auto simp: t1_def not_prefix)
  show ?thesis
    unfolding ensure_year_file_def mk Let_def path_def [symmetric] res
    using t1_path path_ne parent
    by (auto simp: path_exists_def touch_def)
qed

section \<open>The year file\<close>

text \<open>
  C8, as amended. The path of the year file is the notes directory extended by the
  component \<^verbatim>\<open><year>.md\<close>, the year written in decimal without padding; that is four
  digits for the years from 1000 to 9999. When no regular file stands where the notes
  directory or one of its ancestors should be, \<open>ensure_year_file\<close> raises nothing and
  returns that path; afterwards the notes directory and all its ancestors are
  directories, the year file exists, empty if it did not exist before and untouched
  otherwise, and nothing that existed has changed. A second call changes nothing.
\<close>

theorem ensure_year_file_creates:
  "((\<forall>k c. 1 \<le> k \<and> k \<le> length nd \<longrightarrow> t (take k nd) \<noteq> Some (File c)) \<longrightarrow>
      (let path = nd @ [dec (year dt) @ ascii ''.md''];
           t' = snd (ensure_year_file t nd dt)
       in fst (ensure_year_file t nd dt) = Inr path \<and>
          (\<forall>k. 1 \<le> k \<and> k \<le> length nd \<longrightarrow> t' (take k nd) = Some Dir) \<and>
          t' path = (case t path of None \<Rightarrow> Some (File []) | Some n \<Rightarrow> Some n) \<and>
          (\<forall>q. t q \<noteq> None \<longrightarrow> t' q = t q) \<and>
          (\<forall>q. q \<noteq> path \<and> (\<forall>k. q \<noteq> take k nd) \<longrightarrow> t' q = t q) \<and>
          ensure_year_file t' nd dt = (Inr path, t'))) \<and>
   (1000 \<le> year dt \<and> year dt \<le> 9999 \<longrightarrow> length (dec (year dt)) = 4)"
proof (intro conjI impI)
  assume H: "\<forall>k c. 1 \<le> k \<and> k \<le> length nd \<longrightarrow> t (take k nd) \<noteq> Some (File c)"
  define path where "path = nd @ [dec (year dt) @ ascii ''.md'']"
  define t' where "t' = (\<lambda>q. if q = path \<and> t q = None then Some (File [])
      else if (\<exists>k. 1 \<le> k \<and> k \<le> length nd \<and> q = take k nd) \<and> t q = None then Some Dir
      else t q)"
  have r: "ensure_year_file t nd dt = (Inr path, t')"
    unfolding path_def t'_def by (rule ensure_year_file_ok) (use H in blast)
  have not_prefix: "path \<noteq> take k nd" for k
  proof
    assume "path = take k nd"
    then have "length path = length (take k nd)"
      by simp
    then show False
      by (simp add: path_def)
  qed
  have dirs: "t' (take k nd) = Some Dir" if "1 \<le> k" "k \<le> length nd" for k
  proof -
    have "t (take k nd) \<noteq> Some (File c)" for c
      using H that by blast
    then have "t (take k nd) = None \<or> t (take k nd) = Some Dir"
      by (cases "t (take k nd)") (auto intro: node.exhaust)
    moreover have "take k nd \<noteq> path"
      using not_prefix [of k] by simp
    ultimately show ?thesis
      using that by (auto simp: t'_def)
  qed
  have fil: "t' path = (case t path of None \<Rightarrow> Some (File []) | Some n \<Rightarrow> Some n)"
    by (simp add: t'_def not_prefix split: option.splits)
  have kept: "t' q = t q" if "t q \<noteq> None" for q
    using that by (auto simp: t'_def)
  have other: "t' q = t q" if "q \<noteq> path \<and> (\<forall>k. q \<noteq> take k nd)" for q
    using that by (simp add: t'_def)
  have H': "t' (take k nd) \<noteq> Some (File c)" if "1 \<le> k" "k \<le> length nd" for k c
    using dirs [OF that] by simp
  have "ensure_year_file t' nd dt =
      (Inr path, \<lambda>q. if q = path \<and> t' q = None then Some (File [])
         else if (\<exists>k. 1 \<le> k \<and> k \<le> length nd \<and> q = take k nd) \<and> t' q = None then Some Dir
         else t' q)"
    unfolding path_def by (rule ensure_year_file_ok) (use H' in blast)
  moreover have "(\<lambda>q. if q = path \<and> t' q = None then Some (File [])
         else if (\<exists>k. 1 \<le> k \<and> k \<le> length nd \<and> q = take k nd) \<and> t' q = None then Some Dir
         else t' q) = t'"
  proof (rule ext)
    fix q
    have "t' path \<noteq> None"
      by (simp add: fil split: option.splits)
    moreover have "t' q \<noteq> None" if "\<exists>k. 1 \<le> k \<and> k \<le> length nd \<and> q = take k nd"
      using that dirs by auto
    ultimately show "(if q = path \<and> t' q = None then Some (File [])
         else if (\<exists>k. 1 \<le> k \<and> k \<le> length nd \<and> q = take k nd) \<and> t' q = None then Some Dir
         else t' q) = t' q"
      by auto
  qed
  ultimately have idem: "ensure_year_file t' nd dt = (Inr path, t')"
    by simp
  show "let path = nd @ [dec (year dt) @ ascii ''.md''];
           t' = snd (ensure_year_file t nd dt)
       in fst (ensure_year_file t nd dt) = Inr path \<and>
          (\<forall>k. 1 \<le> k \<and> k \<le> length nd \<longrightarrow> t' (take k nd) = Some Dir) \<and>
          t' path = (case t path of None \<Rightarrow> Some (File []) | Some n \<Rightarrow> Some n) \<and>
          (\<forall>q. t q \<noteq> None \<longrightarrow> t' q = t q) \<and>
          (\<forall>q. q \<noteq> path \<and> (\<forall>k. q \<noteq> take k nd) \<longrightarrow> t' q = t q) \<and>
          ensure_year_file t' nd dt = (Inr path, t')"
    unfolding Let_def path_def [symmetric] r fst_conv snd_conv
    using dirs fil kept other idem by blast
next
  assume "1000 \<le> year dt \<and> year dt \<le> 9999"
  then show "length (dec (year dt)) = 4"
    by (simp add: dec_four_digits)
qed

theorem ensure_year_file_creates_witness:
  "Map.empty (take 1 [ascii ''notes'']) = (None :: node option) \<and>
   fst (ensure_year_file Map.empty [ascii ''notes''] \<lparr>year = 2025, month = 8, day = 14\<rparr>) =
     Inr [ascii ''notes'', ascii ''2025.md''] \<and>
   snd (ensure_year_file Map.empty [ascii ''notes''] \<lparr>year = 2025, month = 8, day = 14\<rparr>)
     [ascii ''notes''] = Some Dir \<and>
   snd (ensure_year_file Map.empty [ascii ''notes''] \<lparr>year = 2025, month = 8, day = 14\<rparr>)
     [ascii ''notes'', ascii ''2025.md''] = Some (File []) \<and>
   1000 \<le> year \<lparr>year = 2025, month = 8, day = 14\<rparr> \<and>
   year \<lparr>year = 2025, month = 8, day = 14\<rparr> \<le> 9999 \<and>
   length (dec (year \<lparr>year = 2025, month = 8, day = 14\<rparr>)) = 4"
proof -
  have h: "\<forall>k c. 1 \<le> k \<and> k \<le> length [ascii ''notes''] \<longrightarrow>
      Map.empty (take k [ascii ''notes'']) \<noteq> Some (File c)"
    by simp
  have d: "dec 2025 @ ascii ''.md'' = ascii ''2025.md''"
    by (simp add: dec.simps ascii_def)
  have k: "1 \<le> (1::nat) \<and> 1 \<le> length [ascii ''notes'']"
    by simp
  note w = ensure_year_file_creates [of "[ascii ''notes'']" Map.empty
      "\<lparr>year = 2025, month = 8, day = 14\<rparr>"]
  from w h have a: "fst (ensure_year_file Map.empty [ascii ''notes'']
        \<lparr>year = 2025, month = 8, day = 14\<rparr>) = Inr [ascii ''notes'', ascii ''2025.md'']"
    and b: "\<forall>k. 1 \<le> k \<and> k \<le> length [ascii ''notes''] \<longrightarrow>
        snd (ensure_year_file Map.empty [ascii ''notes''] \<lparr>year = 2025, month = 8, day = 14\<rparr>)
          (take k [ascii ''notes'']) = Some Dir"
    and c: "snd (ensure_year_file Map.empty [ascii ''notes''] \<lparr>year = 2025, month = 8, day = 14\<rparr>)
        [ascii ''notes'', ascii ''2025.md''] = Some (File [])"
    unfolding Let_def by (simp_all add: d)
  from b k have b': "snd (ensure_year_file Map.empty [ascii ''notes'']
      \<lparr>year = 2025, month = 8, day = 14\<rparr>) (take 1 [ascii ''notes'']) = Some Dir"
    by blast
  from w have e: "length (dec (year \<lparr>year = 2025, month = 8, day = 14\<rparr>)) = 4"
    by simp
  show ?thesis
    using a b' c e by simp
qed

text \<open>
  The claim as stated names the file by a four-digit year. A date of the year 999, which
  \<^verbatim>\<open>-d 0999-08-14\<close> gives, puts the note into \<^verbatim>\<open>999.md\<close>.
\<close>

theorem ensure_year_file_three_digit_counterexample:
  "fst (ensure_year_file Map.empty [ascii ''notes''] \<lparr>year = 999, month = 8, day = 14\<rparr>) =
     Inr [ascii ''notes'', ascii ''999.md'']"
  using ensure_year_file_ok [of "[ascii ''notes'']" Map.empty "\<lparr>year = 999, month = 8, day = 14\<rparr>"]
  by (simp add: dec.simps ascii_def)

section \<open>Properties of the rendered lines\<close>

lemma render_lines_eq:
  "clean_tags tags \<noteq> [] \<Longrightarrow>
   lines (render_note_lines m tags) =
     map (\<lambda>t. rstrip (ascii ''* '' @ t @ ascii '': '' @ m))
       (sort (filter (\<lambda>t. \<not> is_ticket t) (clean_tags tags))) @
     concat (map (\<lambda>t. [ascii ''* '' @ t, rstrip (ascii ''    * '' @ m)])
       (sort (filter is_ticket (clean_tags tags))))"
  by (simp add: render_note_lines_def Let_def person_loop_eq ticket_loop_eq)

lemma rstrip_person_line:
  "rstrip (ascii ''* '' @ t @ ascii '': '' @ m) =
     (if list_all isspace m then ascii ''* '' @ t @ ascii '':''
      else ascii ''* '' @ t @ ascii '': '' @ rstrip m)"
proof (cases "list_all isspace m")
  case True
  have "\<not> isspace 58"
    by (simp add: isspace_def)
  then have "rstrip ((ascii ''* '' @ t) @ 58 # (32 # m)) = (ascii ''* '' @ t) @ 58 # rstrip (32 # m)"
    by (rule rstrip_nonspace)
  moreover have "list_all isspace (32 # m)"
    using True by (simp add: isspace_def)
  ultimately show ?thesis
    using True by (simp add: ascii_def rstrip_all_space)
next
  case False
  then have "rstrip ((ascii ''* '' @ t @ ascii '': '') @ m) = (ascii ''* '' @ t @ ascii '': '') @ rstrip m"
    by (rule rstrip_append)
  with False show ?thesis
    by simp
qed

lemma rstrip_sub_bullet:
  "rstrip (ascii ''    * '' @ m) =
     (if list_all isspace m then ascii ''    *'' else ascii ''    * '' @ rstrip m)"
proof (cases "list_all isspace m")
  case True
  have "\<not> isspace 42"
    by (simp add: isspace_def)
  then have "rstrip ([32, 32, 32, 32] @ 42 # (32 # m)) = [32, 32, 32, 32] @ 42 # rstrip (32 # m)"
    by (rule rstrip_nonspace)
  moreover have "list_all isspace (32 # m)"
    using True by (simp add: isspace_def)
  ultimately show ?thesis
    using True by (simp add: ascii_def rstrip_all_space)
next
  case False
  then show ?thesis
    by (simp add: rstrip_append)
qed

lemma person_line_inj:
  "rstrip (ascii ''* '' @ t @ ascii '': '' @ m) = rstrip (ascii ''* '' @ t' @ ascii '': '' @ m) \<Longrightarrow>
   t = t'"
  by (cases "list_all isspace m") (simp_all add: rstrip_person_line)

lemma person_line_hd: "hd (rstrip (ascii ''* '' @ t @ ascii '': '' @ m)) = 42"
  unfolding rstrip_person_line by (simp add: ascii_def)

lemma sub_bullet_hd: "hd (rstrip (ascii ''    * '' @ m)) = 32"
  unfolding rstrip_sub_bullet by (simp add: ascii_def)

lemma person_line_not_sub:
  "rstrip (ascii ''* '' @ t @ ascii '': '' @ m) \<noteq> rstrip (ascii ''    * '' @ m')"
proof
  assume "rstrip (ascii ''* '' @ t @ ascii '': '' @ m) = rstrip (ascii ''    * '' @ m')"
  then have "hd (rstrip (ascii ''* '' @ t @ ascii '': '' @ m)) = hd (rstrip (ascii ''    * '' @ m'))"
    by simp
  then show False
    by (simp add: person_line_hd sub_bullet_hd)
qed

lemma header_line_not_sub: "ascii ''* '' @ t \<noteq> rstrip (ascii ''    * '' @ m)"
proof
  assume "ascii ''* '' @ t = rstrip (ascii ''    * '' @ m)"
  then have "hd (ascii ''* '' @ t) = hd (rstrip (ascii ''    * '' @ m))"
    by simp
  then show False
    unfolding sub_bullet_hd by (simp add: ascii_def)
qed

lemma is_ticket_chars:
  "is_ticket t \<Longrightarrow> c \<in> set t \<Longrightarrow> upper_AZ c \<or> c = 45 \<or> is_decimal c"
proof -
  assume "is_ticket t" and c: "c \<in> set t"
  then obtain u ds where "t = u @ ascii ''-'' @ ds" "list_all upper_AZ u" "list_all is_decimal ds"
    unfolding is_ticket_shape by blast
  with c show ?thesis
    by (auto simp: list_all_iff ascii_def)
qed

lemma is_ticket_no_colon: "is_ticket t \<Longrightarrow> 58 \<notin> set t"
proof
  assume "is_ticket t" "58 \<in> set t"
  then have "upper_AZ 58 \<or> (58::nat) = 45 \<or> is_decimal 58"
    by (rule is_ticket_chars)
  then show False
    by (simp add: upper_AZ_def is_decimal_def decimal_zeros_def)
qed

lemma person_line_not_header:
  "is_ticket t' \<Longrightarrow> rstrip (ascii ''* '' @ t @ ascii '': '' @ m) \<noteq> ascii ''* '' @ t'"
proof
  assume tk: "is_ticket t'"
  assume e: "rstrip (ascii ''* '' @ t @ ascii '': '' @ m) = ascii ''* '' @ t'"
  have "58 \<in> set (rstrip (ascii ''* '' @ t @ ascii '': '' @ m))"
    unfolding rstrip_person_line by (simp add: ascii_def)
  with e have "58 \<in> set (ascii ''* '' @ t')"
    by simp
  then have "58 \<in> set t'"
    by (simp add: ascii_def)
  with is_ticket_no_colon [OF tk] show False
    by simp
qed

lemma count_list_filter:
  "count_list (filter P xs) a = (if P a then count_list xs a else 0)"
  by (induction xs) auto

lemma count_list_sort: "count_list (sort xs) a = count_list xs a"
proof -
  have "count (mset (sort xs)) a = count (mset xs) a"
    by simp
  then show ?thesis
    by (simp only: count_mset)
qed

lemma count_list_map_inj:
  "(\<And>x. f x = f a \<Longrightarrow> x = a) \<Longrightarrow> count_list (map f xs) (f a) = count_list xs a"
  by (induction xs) auto

lemma count_list_map_none:
  "(\<And>x. f x \<noteq> b) \<Longrightarrow> count_list (map f xs) b = 0"
  by (induction xs) auto

lemma count_list_pairs:
  "b \<noteq> s \<Longrightarrow> count_list (concat (map (\<lambda>t. [h t, s]) xs)) b = count_list (map h xs) b"
  by (induction xs) auto

lemma sorted_split_equal:
  "sorted xs \<Longrightarrow>
   xs = filter (\<lambda>x. x < a) xs @ replicate (count_list xs a) a @ filter (\<lambda>x. a < x) xs"
proof (induction xs)
  case Nil
  then show ?case by simp
next
  case (Cons x xs)
  then have le: "\<forall>y\<in>set xs. x \<le> y" and IH:
    "xs = filter (\<lambda>x. x < a) xs @ replicate (count_list xs a) a @ filter (\<lambda>x. a < x) xs"
    by simp_all
  consider "x < a" | "x = a" | "a < x"
    by (meson linorder_less_linear)
  then show ?case
  proof cases
    case 1
    then show ?thesis
      using IH by auto
  next
    case 2
    then have "filter (\<lambda>x. x < a) xs = []"
      using le by (auto simp: filter_empty_conv)
    then show ?thesis
      using 2 IH by auto
  next
    case 3
    then have gt: "\<forall>y\<in>set xs. a < y"
      using le by auto
    then have "filter (\<lambda>x. x < a) xs = []" "filter (\<lambda>x. a < x) xs = xs" "count_list xs a = 0"
      by (auto simp: filter_empty_conv count_list_0_iff)
    then show ?thesis
      using 3 by auto
  qed
qed

section \<open>Rendering with tags\<close>

text \<open>
  C1, as amended. When at least one tag remains after trimming, the output is first one
  line per person-like tag, in ascending order, and then two lines per ticket-like tag,
  in ascending order: the line \<^verbatim>\<open>* <TICKET>\<close> and the sub-bullet. The person line is
  \<^verbatim>\<open>* <TAG>: <message>\<close> and the sub-bullet is four spaces and \<^verbatim>\<open>* <message>\<close>, each with
  its trailing whitespace stripped: for a message of whitespace they end at the colon and
  at the \<^verbatim>\<open>*\<close>, otherwise the message appears without its trailing whitespace, and a
  message that does not end in whitespace appears as it is. The example of the claim
  holds.
\<close>

theorem render_with_tags:
  "(clean_tags tags \<noteq> [] \<longrightarrow>
      lines (render_note_lines m tags) =
        map (\<lambda>t. rstrip (ascii ''* '' @ t @ ascii '': '' @ m))
          (sort (filter (\<lambda>t. \<not> is_ticket t) (clean_tags tags))) @
        concat (map (\<lambda>t. [ascii ''* '' @ t, rstrip (ascii ''    * '' @ m)])
          (sort (filter is_ticket (clean_tags tags))))) \<and>
   rstrip (ascii ''* '' @ t @ ascii '': '' @ m) =
     (if list_all isspace m then ascii ''* '' @ t @ ascii '':''
      else ascii ''* '' @ t @ ascii '': '' @ rstrip m) \<and>
   rstrip (ascii ''    * '' @ m) =
     (if list_all isspace m then ascii ''    *'' else ascii ''    * '' @ rstrip m) \<and>
   (m \<noteq> [] \<and> \<not> isspace (last m) \<longrightarrow> rstrip m = m) \<and>
   lines (render_note_lines (ascii ''sync'') [ascii ''Chris'', ascii ''DT-99'', ascii ''alice'']) =
     [ascii ''* Chris: sync'', ascii ''* alice: sync'', ascii ''* DT-99'', ascii ''    * sync'']"
proof (intro conjI impI)
  assume "clean_tags tags \<noteq> []"
  then show "lines (render_note_lines m tags) =
      map (\<lambda>t. rstrip (ascii ''* '' @ t @ ascii '': '' @ m))
        (sort (filter (\<lambda>t. \<not> is_ticket t) (clean_tags tags))) @
      concat (map (\<lambda>t. [ascii ''* '' @ t, rstrip (ascii ''    * '' @ m)])
        (sort (filter is_ticket (clean_tags tags))))"
    by (rule render_lines_eq)
next
  show "rstrip (ascii ''* '' @ t @ ascii '': '' @ m) =
     (if list_all isspace m then ascii ''* '' @ t @ ascii '':''
      else ascii ''* '' @ t @ ascii '': '' @ rstrip m)"
    by (rule rstrip_person_line)
next
  show "rstrip (ascii ''    * '' @ m) =
     (if list_all isspace m then ascii ''    *'' else ascii ''    * '' @ rstrip m)"
    by (rule rstrip_sub_bullet)
next
  assume "m \<noteq> [] \<and> \<not> isspace (last m)"
  then show "rstrip m = m"
    by (simp add: rstrip_id)
next
  show "lines (render_note_lines (ascii ''sync'') [ascii ''Chris'', ascii ''DT-99'', ascii ''alice'']) =
     [ascii ''* Chris: sync'', ascii ''* alice: sync'', ascii ''* DT-99'', ascii ''    * sync'']"
    by (simp add: eval_defs)
qed

theorem render_with_tags_witness:
  "clean_tags [ascii '' bob '', ascii ''AB-12''] \<noteq> [] \<and>
   ascii ''hi'' \<noteq> [] \<and> \<not> isspace (last (ascii ''hi'')) \<and>
   lines (render_note_lines (ascii ''hi'') [ascii '' bob '', ascii ''AB-12'']) =
     [ascii ''* bob: hi'', ascii ''* AB-12'', ascii ''    * hi'']"
proof -
  have c: "clean_tags [ascii '' bob '', ascii ''AB-12''] = [ascii ''bob'', ascii ''AB-12'']"
    by (simp add: eval_defs)
  have k: "is_ticket (ascii ''AB-12'')" "\<not> is_ticket (ascii ''bob'')"
    by (simp_all add: eval_defs)
  have m: "ascii ''hi'' \<noteq> []" "\<not> isspace (last (ascii ''hi''))" "\<not> list_all isspace (ascii ''hi'')"
    by (simp_all add: ascii_def isspace_def)
  note w = render_with_tags [of "[ascii '' bob '', ascii ''AB-12'']" "ascii ''hi''" "ascii ''bob''"]
  from w m have r: "rstrip (ascii ''hi'') = ascii ''hi''"
    by blast
  from w c have "lines (render_note_lines (ascii ''hi'') [ascii '' bob '', ascii ''AB-12'']) =
      map (\<lambda>t. rstrip (ascii ''* '' @ t @ ascii '': '' @ ascii ''hi''))
        (sort (filter (\<lambda>t. \<not> is_ticket t) [ascii ''bob'', ascii ''AB-12''])) @
      concat (map (\<lambda>t. [ascii ''* '' @ t, rstrip (ascii ''    * '' @ ascii ''hi'')])
        (sort (filter is_ticket [ascii ''bob'', ascii ''AB-12''])))"
    by simp
  then have "lines (render_note_lines (ascii ''hi'') [ascii '' bob '', ascii ''AB-12'']) =
      [ascii ''* '' @ ascii ''bob'' @ ascii '': '' @ ascii ''hi'',
       ascii ''* '' @ ascii ''AB-12'', ascii ''    * '' @ ascii ''hi'']"
    using k m(3) r by (simp add: rstrip_person_line rstrip_sub_bullet)
  then show ?thesis
    using c m by (simp add: ascii_def)
qed

text \<open>
  The claim as stated gives the person line as \<^verbatim>\<open>* <TAG>: <message>\<close> for every message. For
  the empty message that would be \<^verbatim>\<open>* Chris: \<close> with a trailing space; the line that is
  rendered ends at the colon.
\<close>

theorem render_empty_message_counterexample:
  "lines (render_note_lines [] [ascii ''Chris'']) = [ascii ''* Chris:''] \<and>
   [ascii ''* Chris:''] \<noteq> [ascii ''* '' @ ascii ''Chris'' @ ascii '': '' @ []]"
  by (simp add: eval_defs)

section \<open>Repeated tags\<close>

text \<open>
  C10, as amended. Tags are not deduplicated. When at least one tag remains after
  trimming, the line of a person-like tag, \<^verbatim>\<open>* <TAG>: <message>\<close> with its trailing
  whitespace stripped, occurs in the output exactly as often as the tag occurs in the
  trimmed tag list; and for a ticket-like tag that occurs k times there, the line
  \<^verbatim>\<open>* <TICKET>\<close> occurs exactly k times and the output contains k consecutive
  repetitions of the pair of that line and the sub-bullet, four spaces and
  \<^verbatim>\<open>* <message>\<close> with its trailing whitespace stripped.
\<close>

theorem render_keeps_duplicates:
  "(clean_tags tags \<noteq> [] \<and> \<not> is_ticket t \<longrightarrow>
      count_list (lines (render_note_lines m tags)) (rstrip (ascii ''* '' @ t @ ascii '': '' @ m)) =
        count_list (clean_tags tags) t) \<and>
   (clean_tags tags \<noteq> [] \<and> is_ticket t \<longrightarrow>
      count_list (lines (render_note_lines m tags)) (ascii ''* '' @ t) =
        count_list (clean_tags tags) t \<and>
      (\<exists>pre post. lines (render_note_lines m tags) =
         pre @
         concat (replicate (count_list (clean_tags tags) t)
           [ascii ''* '' @ t, rstrip (ascii ''    * '' @ m)]) @
         post))"
proof (intro conjI impI)
  assume a: "clean_tags tags \<noteq> [] \<and> \<not> is_ticket t"
  define P where "P = sort (filter (\<lambda>t. \<not> is_ticket t) (clean_tags tags))"
  define T where "T = sort (filter is_ticket (clean_tags tags))"
  have l: "lines (render_note_lines m tags) =
      map (\<lambda>t. rstrip (ascii ''* '' @ t @ ascii '': '' @ m)) P @
      concat (map (\<lambda>t. [ascii ''* '' @ t, rstrip (ascii ''    * '' @ m)]) T)"
    unfolding P_def T_def using a by (simp add: render_lines_eq)
  have "count_list (map (\<lambda>t. rstrip (ascii ''* '' @ t @ ascii '': '' @ m)) P)
      (rstrip (ascii ''* '' @ t @ ascii '': '' @ m)) = count_list P t"
    by (rule count_list_map_inj) (rule person_line_inj)
  moreover have "count_list P t = count_list (clean_tags tags) t"
    using a by (simp add: P_def count_list_sort count_list_filter)
  moreover have "count_list (concat (map (\<lambda>t. [ascii ''* '' @ t, rstrip (ascii ''    * '' @ m)]) T))
      (rstrip (ascii ''* '' @ t @ ascii '': '' @ m)) =
      count_list (map (\<lambda>t. ascii ''* '' @ t) T) (rstrip (ascii ''* '' @ t @ ascii '': '' @ m))"
    by (rule count_list_pairs) (rule person_line_not_sub)
  moreover have "count_list (map (\<lambda>t. ascii ''* '' @ t) T)
      (rstrip (ascii ''* '' @ t @ ascii '': '' @ m)) = 0"
  proof -
    have "rstrip (ascii ''* '' @ t @ ascii '': '' @ m) \<notin> set (map (\<lambda>t. ascii ''* '' @ t) T)"
    proof
      assume "rstrip (ascii ''* '' @ t @ ascii '': '' @ m) \<in> set (map (\<lambda>t. ascii ''* '' @ t) T)"
      then obtain x where x: "x \<in> set T" "rstrip (ascii ''* '' @ t @ ascii '': '' @ m) = ascii ''* '' @ x"
        by auto
      from x(1) have "is_ticket x"
        by (simp add: T_def)
      then have "rstrip (ascii ''* '' @ t @ ascii '': '' @ m) \<noteq> ascii ''* '' @ x"
        by (rule person_line_not_header)
      with x(2) show False
        by simp
    qed
    then show ?thesis
      by (simp add: count_list_0_iff)
  qed
  ultimately show "count_list (lines (render_note_lines m tags))
      (rstrip (ascii ''* '' @ t @ ascii '': '' @ m)) = count_list (clean_tags tags) t"
    unfolding l by simp
next
  assume a: "clean_tags tags \<noteq> [] \<and> is_ticket t"
  define P where "P = sort (filter (\<lambda>t. \<not> is_ticket t) (clean_tags tags))"
  define T where "T = sort (filter is_ticket (clean_tags tags))"
  define s where "s = rstrip (ascii ''    * '' @ m)"
  have l: "lines (render_note_lines m tags) =
      map (\<lambda>t. rstrip (ascii ''* '' @ t @ ascii '': '' @ m)) P @
      concat (map (\<lambda>t. [ascii ''* '' @ t, s]) T)"
    unfolding P_def T_def s_def using a by (simp add: render_lines_eq)
  have T: "count_list T t = count_list (clean_tags tags) t"
    using a by (simp add: T_def count_list_sort count_list_filter)
  have "count_list (map (\<lambda>t. rstrip (ascii ''* '' @ t @ ascii '': '' @ m)) P) (ascii ''* '' @ t) = 0"
  proof -
    have "ascii ''* '' @ t \<notin> set (map (\<lambda>t. rstrip (ascii ''* '' @ t @ ascii '': '' @ m)) P)"
    proof
      assume "ascii ''* '' @ t \<in> set (map (\<lambda>t. rstrip (ascii ''* '' @ t @ ascii '': '' @ m)) P)"
      then obtain x where x: "ascii ''* '' @ t = rstrip (ascii ''* '' @ x @ ascii '': '' @ m)"
        by auto
      from a have "is_ticket t"
        by simp
      then have "rstrip (ascii ''* '' @ x @ ascii '': '' @ m) \<noteq> ascii ''* '' @ t"
        by (rule person_line_not_header)
      with x show False
        by simp
    qed
    then show ?thesis
      by (simp add: count_list_0_iff)
  qed
  moreover have "count_list (concat (map (\<lambda>t. [ascii ''* '' @ t, s]) T)) (ascii ''* '' @ t) =
      count_list (map (\<lambda>t. ascii ''* '' @ t) T) (ascii ''* '' @ t)"
    unfolding s_def by (rule count_list_pairs) (rule header_line_not_sub)
  moreover have "count_list (map (\<lambda>t. ascii ''* '' @ t) T) (ascii ''* '' @ t) = count_list T t"
    by (rule count_list_map_inj) simp
  ultimately show "count_list (lines (render_note_lines m tags)) (ascii ''* '' @ t) =
      count_list (clean_tags tags) t"
    unfolding l using T by simp
  have "sorted T"
    by (simp add: T_def)
  then have "T = filter (\<lambda>x. x < t) T @ replicate (count_list T t) t @ filter (\<lambda>x. t < x) T"
    by (rule sorted_split_equal)
  then have "concat (map (\<lambda>t. [ascii ''* '' @ t, s]) T) =
      concat (map (\<lambda>t. [ascii ''* '' @ t, s])
        (filter (\<lambda>x. x < t) T @ replicate (count_list T t) t @ filter (\<lambda>x. t < x) T))"
    by simp
  then have "concat (map (\<lambda>t. [ascii ''* '' @ t, s]) T) =
      concat (map (\<lambda>t. [ascii ''* '' @ t, s]) (filter (\<lambda>x. x < t) T)) @
      concat (replicate (count_list T t) [ascii ''* '' @ t, s]) @
      concat (map (\<lambda>t. [ascii ''* '' @ t, s]) (filter (\<lambda>x. t < x) T))"
    by (simp add: map_replicate_const [symmetric] o_def del: map_replicate_const)
  then have "lines (render_note_lines m tags) =
      (map (\<lambda>t. rstrip (ascii ''* '' @ t @ ascii '': '' @ m)) P @
       concat (map (\<lambda>t. [ascii ''* '' @ t, s]) (filter (\<lambda>x. x < t) T))) @
      concat (replicate (count_list (clean_tags tags) t) [ascii ''* '' @ t, s]) @
      concat (map (\<lambda>t. [ascii ''* '' @ t, s]) (filter (\<lambda>x. t < x) T))"
    unfolding l T by simp
  then show "\<exists>pre post. lines (render_note_lines m tags) =
      pre @
      concat (replicate (count_list (clean_tags tags) t)
        [ascii ''* '' @ t, rstrip (ascii ''    * '' @ m)]) @
      post"
    unfolding s_def by blast
qed

theorem render_keeps_duplicates_witness:
  "clean_tags [ascii ''bob'', ascii ''AB-12'', ascii ''bob '', ascii ''AB-12''] \<noteq> [] \<and>
   \<not> is_ticket (ascii ''bob'') \<and> is_ticket (ascii ''AB-12'') \<and>
   count_list (clean_tags [ascii ''bob'', ascii ''AB-12'', ascii ''bob '', ascii ''AB-12''])
     (ascii ''bob'') = 2 \<and>
   count_list
     (lines (render_note_lines (ascii ''hi'')
        [ascii ''bob'', ascii ''AB-12'', ascii ''bob '', ascii ''AB-12'']))
     (ascii ''* bob: hi'') = 2 \<and>
   count_list
     (lines (render_note_lines (ascii ''hi'')
        [ascii ''bob'', ascii ''AB-12'', ascii ''bob '', ascii ''AB-12'']))
     (ascii ''* AB-12'') = 2"
proof -
  have c: "clean_tags [ascii ''bob'', ascii ''AB-12'', ascii ''bob '', ascii ''AB-12''] =
      [ascii ''bob'', ascii ''AB-12'', ascii ''bob'', ascii ''AB-12'']"
    by (simp add: eval_defs)
  have k: "is_ticket (ascii ''AB-12'')" "\<not> is_ticket (ascii ''bob'')"
    by (simp_all add: eval_defs)
  have n: "count_list [ascii ''bob'', ascii ''AB-12'', ascii ''bob'', ascii ''AB-12''] (ascii ''bob'') = 2"
    "count_list [ascii ''bob'', ascii ''AB-12'', ascii ''bob'', ascii ''AB-12''] (ascii ''AB-12'') = 2"
    by (simp_all add: ascii_def)
  have r: "rstrip (ascii ''* '' @ ascii ''bob'' @ ascii '': '' @ ascii ''hi'') = ascii ''* bob: hi''"
    by (simp add: eval_defs)
  have h: "ascii ''* '' @ ascii ''AB-12'' = ascii ''* AB-12''"
    by (simp add: ascii_def)
  have "count_list
     (lines (render_note_lines (ascii ''hi'')
        [ascii ''bob'', ascii ''AB-12'', ascii ''bob '', ascii ''AB-12'']))
     (ascii ''* bob: hi'') = 2"
    using render_keeps_duplicates [of "[ascii ''bob'', ascii ''AB-12'', ascii ''bob '', ascii ''AB-12'']"
        "ascii ''bob''" "ascii ''hi''"] k
    unfolding c r n by simp
  moreover have "count_list
     (lines (render_note_lines (ascii ''hi'')
        [ascii ''bob'', ascii ''AB-12'', ascii ''bob '', ascii ''AB-12'']))
     (ascii ''* AB-12'') = 2"
    using render_keeps_duplicates [of "[ascii ''bob'', ascii ''AB-12'', ascii ''bob '', ascii ''AB-12'']"
        "ascii ''AB-12''" "ascii ''hi''"] k
    unfolding c h n by simp
  ultimately show ?thesis
    using k unfolding c n by simp
qed

text \<open>
  The claim as stated counts lines of the form \<^verbatim>\<open>* <TAG>: <message>\<close>. For the tag
  \<^verbatim>\<open>bob\<close> given twice with a message of one space, no rendered line is \<^verbatim>\<open>* bob:  \<close>;
  the two lines that are rendered are \<^verbatim>\<open>* bob:\<close>.
\<close>

theorem render_duplicates_counterexample:
  "count_list (clean_tags [ascii ''bob'', ascii ''bob'']) (ascii ''bob'') = 2 \<and>
   count_list (lines (render_note_lines (ascii '' '') [ascii ''bob'', ascii ''bob'']))
     (ascii ''* '' @ ascii ''bob'' @ ascii '': '' @ ascii '' '') = 0 \<and>
   lines (render_note_lines (ascii '' '') [ascii ''bob'', ascii ''bob'']) =
     [ascii ''* bob:'', ascii ''* bob:'']"
  by (simp add: eval_defs)

section \<open>Characters of the rendered lines\<close>

lemma set_rstrip: "set (rstrip s) \<subseteq> set s"
proof -
  have "set (dropWhile isspace (rev s)) \<subseteq> set (rev s)"
    by (auto dest: set_dropWhileD)
  then show ?thesis
    by (simp add: rstrip_def)
qed

lemma render_lines_cases:
  assumes l: "l \<in> set (lines (render_note_lines m tags))"
  shows "l = rstrip (ascii ''* '' @ m) \<or>
     (\<exists>x\<in>set (clean_tags tags). l = rstrip (ascii ''* '' @ x @ ascii '': '' @ m) \<or>
        l = ascii ''* '' @ x \<or> l = rstrip (ascii ''    * '' @ m))"
proof (cases "clean_tags tags = []")
  case True
  with l show ?thesis
    by (simp add: render_no_tags)
next
  case False
  from l show ?thesis
    unfolding render_lines_eq [OF False] by auto
qed

lemma render_lines_char:
  assumes x: "x \<noteq> 42" "x \<noteq> 32" "x \<noteq> 58" and m: "x \<notin> set m"
    and t: "list_all (\<lambda>t. x \<notin> set (strip t)) tags"
    and l: "l \<in> set (lines (render_note_lines m tags))"
  shows "x \<notin> set l"
proof -
  have c: "x \<notin> set y" if "y \<in> set (clean_tags tags)" for y
    using that t by (auto simp: clean_tags_def list_all_iff)
  have r: "x \<notin> set (rstrip m)"
    using m set_rstrip [of m] by auto
  have "x \<notin> set (rstrip (ascii ''* '' @ m))"
    unfolding rstrip_bullet using x r by (simp add: ascii_def)
  moreover have "x \<notin> set (rstrip (ascii ''* '' @ y @ ascii '': '' @ m))"
    if "y \<in> set (clean_tags tags)" for y
    unfolding rstrip_person_line using x r c [OF that] by (simp add: ascii_def)
  moreover have "x \<notin> set (ascii ''* '' @ y)" if "y \<in> set (clean_tags tags)" for y
    using x c [OF that] by (simp add: ascii_def)
  moreover have "x \<notin> set (rstrip (ascii ''    * '' @ m))"
    unfolding rstrip_sub_bullet using x r by (simp add: ascii_def)
  ultimately show ?thesis
    using render_lines_cases [OF l] by auto
qed

lemma render_lines_hd:
  assumes l: "l \<in> set (lines (render_note_lines m tags))"
  shows "l \<noteq> [] \<and> hd l \<noteq> 35"
proof -
  have "rstrip (ascii ''* '' @ m) \<noteq> [] \<and> hd (rstrip (ascii ''* '' @ m)) \<noteq> 35"
    unfolding rstrip_bullet by (simp add: ascii_def)
  moreover have "rstrip (ascii ''* '' @ y @ ascii '': '' @ m) \<noteq> [] \<and>
      hd (rstrip (ascii ''* '' @ y @ ascii '': '' @ m)) \<noteq> 35" for y
    unfolding rstrip_person_line by (simp add: ascii_def)
  moreover have "ascii ''* '' @ y \<noteq> [] \<and> hd (ascii ''* '' @ y) \<noteq> 35" for y
    by (simp add: ascii_def)
  moreover have "rstrip (ascii ''    * '' @ m) \<noteq> [] \<and> hd (rstrip (ascii ''    * '' @ m)) \<noteq> 35"
    unfolding rstrip_sub_bullet by (simp add: ascii_def)
  ultimately show ?thesis
    using render_lines_cases [OF l] by auto
qed

lemma render_lines_plain:
  assumes m: "no_line_break m" and t: "list_all (\<lambda>t. no_line_break (strip t)) tags"
  shows "list_all (\<lambda>l. no_line_break l \<and> l \<noteq> [] \<and> hd l \<noteq> 35)
    (lines (render_note_lines m tags))"
  unfolding list_all_iff
proof
  fix l
  assume l: "l \<in> set (lines (render_note_lines m tags))"
  have "nl \<notin> set l"
    using _ _ _ _ _ l
  proof (rule render_lines_char)
    show "nl \<notin> set m" "list_all (\<lambda>t. nl \<notin> set (strip t)) tags"
      using m t by (simp_all add: no_line_break_def list_all_iff)
  qed (simp_all add: nl_def)
  moreover have "13 \<notin> set l"
    using _ _ _ _ _ l
  proof (rule render_lines_char)
    show "13 \<notin> set m" "list_all (\<lambda>t. 13 \<notin> set (strip t)) tags"
      using m t by (simp_all add: no_line_break_def list_all_iff)
  qed simp_all
  ultimately show "no_line_break l \<and> l \<noteq> [] \<and> hd l \<noteq> 35"
    using render_lines_hd [OF l] by (simp add: no_line_break_def)
qed

lemma no_line_break_joined:
  "list_all no_line_break ls \<Longrightarrow> 13 \<notin> set (joined ls)"
  by (auto simp: joined_def list_all_iff no_line_break_def nl_def)

section \<open>Appending a missing header\<close>




section \<open>Appending the rendered lines\<close>

text \<open>
  C7, as amended. \<open>append_lines_under_today\<close> opens the file for appending and writes
  the lines in the given order, each followed by one line feed, up to the first line
  that cannot be encoded, where it raises; the text that the file had stays as the
  prefix of the new text. When every line can be encoded and has no line break inside,
  and the file did not end with a carriage return, reading the file back gives the text
  read before followed by the lines, each with its line feed, and splitting what was
  appended at the line feeds gives back the lines themselves. The lines of the renderer
  have no line break inside when the message and the trimmed tags have none; this covers
  the indented sub-bullet.
\<close>

theorem append_lines_round_trip:
  "(p \<noteq> [] \<and> t p = Some (File c) \<longrightarrow>
      append_lines_under_today t p dt ls =
        (if list_all encodable ls then Inr () else Inl UnicodeEncodeError,
         t(p \<mapsto> File (c @ concat (map (\<lambda>l. l @ [nl]) (takeWhile encodable ls)))))) \<and>
   (p \<noteq> [] \<and> t p = None \<and> is_dir t (butlast p) \<longrightarrow>
      append_lines_under_today t p dt ls =
        (if list_all encodable ls then Inr () else Inl UnicodeEncodeError,
         t(p \<mapsto> File (concat (map (\<lambda>l. l @ [nl]) (takeWhile encodable ls)))))) \<and>
   (p \<noteq> [] \<and> t p = Some (File c) \<and> (c = [] \<or> last c \<noteq> 13) \<and>
    list_all encodable ls \<and> list_all no_line_break ls \<longrightarrow>
      read_text (snd (append_lines_under_today t p dt ls)) p =
        Inr (universal_newlines False c @ concat (map (\<lambda>l. l @ [nl]) ls)) \<and>
      split_nl (concat (map (\<lambda>l. l @ [nl]) ls)) = ls @ [[]]) \<and>
   (no_line_break m \<and> list_all (\<lambda>t. no_line_break (strip t)) tags \<longrightarrow>
      list_all no_line_break (lines (render_note_lines m tags)))"
proof (intro conjI impI)
  assume "p \<noteq> [] \<and> t p = Some (File c)"
  then show "append_lines_under_today t p dt ls =
      (if list_all encodable ls then Inr () else Inl UnicodeEncodeError,
       t(p \<mapsto> File (c @ concat (map (\<lambda>l. l @ [nl]) (takeWhile encodable ls)))))"
    using append_lines_file [of p t c dt ls] unfolding joined_def by blast
next
  assume "p \<noteq> [] \<and> t p = None \<and> is_dir t (butlast p)"
  then show "append_lines_under_today t p dt ls =
      (if list_all encodable ls then Inr () else Inl UnicodeEncodeError,
       t(p \<mapsto> File (concat (map (\<lambda>l. l @ [nl]) (takeWhile encodable ls)))))"
    using append_lines_new [of p t dt ls] unfolding joined_def by blast
next
  assume a: "p \<noteq> [] \<and> t p = Some (File c) \<and> (c = [] \<or> last c \<noteq> 13) \<and>
    list_all encodable ls \<and> list_all no_line_break ls"
  then have tw: "takeWhile encodable ls = ls"
    by (simp add: takeWhile_all)
  have r: "snd (append_lines_under_today t p dt ls) = t(p \<mapsto> File (c @ joined ls))"
    using a append_lines_file [of p t c dt ls] by (simp add: tw)
  have "13 \<notin> set (joined ls)"
    using a by (simp add: no_line_break_joined)
  then have "universal_newlines False (joined ls) = joined ls"
    by (rule universal_newlines_id)
  moreover have "(if c = [] then False else last c = 13) = False"
    using a by auto
  ultimately have "universal_newlines False (c @ joined ls) =
      universal_newlines False c @ joined ls"
    unfolding universal_newlines_append by simp
  then show "read_text (snd (append_lines_under_today t p dt ls)) p =
      Inr (universal_newlines False c @ concat (map (\<lambda>l. l @ [nl]) ls))"
    unfolding r using a by (simp add: read_text_def joined_def)
  have "\<forall>l\<in>set ls. nl \<notin> set l"
    using a by (simp add: list_all_iff no_line_break_def)
  then show "split_nl (concat (map (\<lambda>l. l @ [nl]) ls)) = ls @ [[]]"
    using split_nl_joined [of ls] by (simp add: joined_def)
next
  assume "no_line_break m \<and> list_all (\<lambda>t. no_line_break (strip t)) tags"
  then have "list_all (\<lambda>l. no_line_break l \<and> l \<noteq> [] \<and> hd l \<noteq> 35)
      (lines (render_note_lines m tags))"
    by (simp add: render_lines_plain)
  then show "list_all no_line_break (lines (render_note_lines m tags))"
    by (simp add: list_all_iff)
qed

lemma render_ticket_example:
  "lines (render_note_lines (ascii ''fix bug'') [ascii ''DT-1234'']) =
     [ascii ''* DT-1234'', ascii ''    * fix bug'']"
  by (simp add: eval_defs)

theorem append_lines_round_trip_witness:
  "[ascii ''notes'', ascii ''2025.md''] \<noteq> [] \<and>
   [[ascii ''notes'', ascii ''2025.md''] \<mapsto> File (ascii ''# 08/14/2025'' @ [nl, nl])]
      [ascii ''notes'', ascii ''2025.md''] = Some (File (ascii ''# 08/14/2025'' @ [nl, nl])) \<and>
   last (ascii ''# 08/14/2025'' @ [nl, nl]) \<noteq> 13 \<and>
   no_line_break (ascii ''fix bug'') \<and>
   list_all (\<lambda>t. no_line_break (strip t)) [ascii ''DT-1234''] \<and>
   lines (render_note_lines (ascii ''fix bug'') [ascii ''DT-1234'']) =
     [ascii ''* DT-1234'', ascii ''    * fix bug''] \<and>
   list_all encodable [ascii ''* DT-1234'', ascii ''    * fix bug''] \<and>
   list_all no_line_break [ascii ''* DT-1234'', ascii ''    * fix bug''] \<and>
   read_text
     (snd (append_lines_under_today
        [[ascii ''notes'', ascii ''2025.md''] \<mapsto> File (ascii ''# 08/14/2025'' @ [nl, nl])]
        [ascii ''notes'', ascii ''2025.md''] \<lparr>year = 2025, month = 8, day = 14\<rparr>
        (lines (render_note_lines (ascii ''fix bug'') [ascii ''DT-1234'']))))
     [ascii ''notes'', ascii ''2025.md''] =
     Inr (ascii ''# 08/14/2025'' @ [nl, nl] @ ascii ''* DT-1234'' @ [nl] @
          ascii ''    * fix bug'' @ [nl]) \<and>
   split_nl (ascii ''* DT-1234'' @ [nl] @ ascii ''    * fix bug'' @ [nl]) =
     [ascii ''* DT-1234'', ascii ''    * fix bug'', []]"
proof -
  have s: "strip (ascii ''DT-1234'') = ascii ''DT-1234''"
    by (simp add: eval_defs)
  have n0: "no_line_break (ascii ''fix bug'')" "no_line_break (ascii ''DT-1234'')"
    by (simp_all add: no_line_break_def ascii_def nl_def)
  then have n: "no_line_break (ascii ''fix bug'')"
    "list_all (\<lambda>t. no_line_break (strip t)) [ascii ''DT-1234'']"
    by (simp_all add: s)
  have e: "list_all encodable [ascii ''* DT-1234'', ascii ''    * fix bug'']"
    by (simp add: encodable_def surrogate_def ascii_def)
  have c: "last (ascii ''# 08/14/2025'' @ [nl, nl]) \<noteq> 13"
    "universal_newlines False (ascii ''# 08/14/2025'' @ [nl, nl]) = ascii ''# 08/14/2025'' @ [nl, nl]"
    by (simp_all add: ascii_def nl_def)
  note w = append_lines_round_trip [of "[ascii ''notes'', ascii ''2025.md'']"
      "[[ascii ''notes'', ascii ''2025.md''] \<mapsto> File (ascii ''# 08/14/2025'' @ [nl, nl])]"
      "ascii ''# 08/14/2025'' @ [nl, nl]" "\<lparr>year = 2025, month = 8, day = 14\<rparr>"
      "[ascii ''* DT-1234'', ascii ''    * fix bug'']" "ascii ''fix bug''" "[ascii ''DT-1234'']"]
  from w n have b: "list_all no_line_break [ascii ''* DT-1234'', ascii ''    * fix bug'']"
    unfolding render_ticket_example by blast
  have f: "[[ascii ''notes'', ascii ''2025.md''] \<mapsto> File (ascii ''# 08/14/2025'' @ [nl, nl])]
      [ascii ''notes'', ascii ''2025.md''] = Some (File (ascii ''# 08/14/2025'' @ [nl, nl]))"
    "[ascii ''notes'', ascii ''2025.md''] \<noteq> []"
    by simp_all
  from w f c(1) e b
  have r: "read_text
     (snd (append_lines_under_today
        [[ascii ''notes'', ascii ''2025.md''] \<mapsto> File (ascii ''# 08/14/2025'' @ [nl, nl])]
        [ascii ''notes'', ascii ''2025.md''] \<lparr>year = 2025, month = 8, day = 14\<rparr>
        [ascii ''* DT-1234'', ascii ''    * fix bug'']))
     [ascii ''notes'', ascii ''2025.md''] =
     Inr (universal_newlines False (ascii ''# 08/14/2025'' @ [nl, nl]) @
       concat (map (\<lambda>l. l @ [nl]) [ascii ''* DT-1234'', ascii ''    * fix bug'']))"
    and sp: "split_nl (concat (map (\<lambda>l. l @ [nl]) [ascii ''* DT-1234'', ascii ''    * fix bug''])) =
      [ascii ''* DT-1234'', ascii ''    * fix bug''] @ [[]]"
    by blast+
  show ?thesis
    using f c(1) n e b r sp unfolding render_ticket_example c(2) by simp
qed

text \<open>
  The claim as stated has the file give back the rendered lines for every message. A
  message with a carriage return inside is rendered as one line with that carriage
  return; written and read again, the carriage return has become a line feed.
\<close>

theorem append_lines_carriage_return_counterexample:
  "lines (render_note_lines (ascii ''a'' @ [13] @ ascii ''b'') []) =
     [ascii ''* a'' @ [13] @ ascii ''b''] \<and>
   read_text
     (snd (append_lines_under_today [[ascii ''notes'', ascii ''2025.md''] \<mapsto> File []]
        [ascii ''notes'', ascii ''2025.md''] \<lparr>year = 2025, month = 8, day = 14\<rparr>
        [ascii ''* a'' @ [13] @ ascii ''b'']))
     [ascii ''notes'', ascii ''2025.md''] =
     Inr (ascii ''* a'' @ [nl] @ ascii ''b'' @ [nl])"
proof -
  have l: "lines (render_note_lines (ascii ''a'' @ [13] @ ascii ''b'') []) =
      [ascii ''* a'' @ [13] @ ascii ''b'']"
    by (simp add: eval_defs)
  have e: "list_all encodable [ascii ''* a'' @ [13] @ ascii ''b'']"
    by (simp add: encodable_def surrogate_def ascii_def)
  have "snd (append_lines_under_today [[ascii ''notes'', ascii ''2025.md''] \<mapsto> File []]
        [ascii ''notes'', ascii ''2025.md''] \<lparr>year = 2025, month = 8, day = 14\<rparr>
        [ascii ''* a'' @ [13] @ ascii ''b'']) =
      [[ascii ''notes'', ascii ''2025.md''] \<mapsto> File (ascii ''* a'' @ [13] @ ascii ''b'' @ [nl])]"
    using e
      append_lines_file [of "[ascii ''notes'', ascii ''2025.md'']"
        "[[ascii ''notes'', ascii ''2025.md''] \<mapsto> File []]" "[]"
        "\<lparr>year = 2025, month = 8, day = 14\<rparr>" "[ascii ''* a'' @ [13] @ ascii ''b'']"]
    by (simp add: takeWhile_all joined_def)
  then have "read_text
     (snd (append_lines_under_today [[ascii ''notes'', ascii ''2025.md''] \<mapsto> File []]
        [ascii ''notes'', ascii ''2025.md''] \<lparr>year = 2025, month = 8, day = 14\<rparr>
        [ascii ''* a'' @ [13] @ ascii ''b'']))
     [ascii ''notes'', ascii ''2025.md''] =
     Inr (ascii ''* a'' @ [nl] @ ascii ''b'' @ [nl])"
    by (simp add: read_text_def ascii_def nl_def)
  with l show ?thesis
    by simp
qed

section \<open>Finding the header\<close>

text \<open>
  C5, as amended. On an existing file \<open>ensure_date_header\<close> changes nothing exactly
  when its pattern finds the header in the text of the file as it is read: at the start
  of a line a \<^verbatim>\<open>#\<close>, then one or more whitespace characters, then the formatted date, then
  only whitespace up to the end of a line or of the text. A line that is exactly
  \<^verbatim>\<open># <formatted-date>\<close> is such a place, and text that does not start a line is none.
\<close>

theorem ensure_date_header_noop_iff:
  "(p \<noteq> [] \<and> t p = Some (File c) \<longrightarrow>
      (ensure_date_header t p dt = (Inr (), t) \<longleftrightarrow>
         header_search (strftime_mdY dt) (universal_newlines False c))) \<and>
   (header_search d s \<longleftrightarrow>
      (\<exists>pre w v post. s = pre @ ascii ''#'' @ w @ d @ v @ post \<and> (pre = [] \<or> last pre = nl) \<and>
         w \<noteq> [] \<and> list_all isspace w \<and> list_all isspace v \<and> (post = [] \<or> hd post = nl))) \<and>
   (ascii ''# '' @ d \<in> set (split_nl s) \<longrightarrow> header_search d s)"
proof (intro conjI impI)
  assume a: "p \<noteq> [] \<and> t p = Some (File c)"
  have "t(p \<mapsto> File (c @ header_block (universal_newlines False c) (strftime_mdY dt))) \<noteq> t"
  proof
    assume "t(p \<mapsto> File (c @ header_block (universal_newlines False c) (strftime_mdY dt))) = t"
    then have "(t(p \<mapsto> File (c @ header_block (universal_newlines False c) (strftime_mdY dt)))) p =
        t p"
      by simp
    with a show False
      by (simp add: header_block_nonempty)
  qed
  then show "ensure_date_header t p dt = (Inr (), t) \<longleftrightarrow>
      header_search (strftime_mdY dt) (universal_newlines False c)"
    using a ensure_date_header_file [of p t c dt] by simp
next
  show "header_search d s \<longleftrightarrow>
      (\<exists>pre w v post. s = pre @ ascii ''#'' @ w @ d @ v @ post \<and> (pre = [] \<or> last pre = nl) \<and>
         w \<noteq> [] \<and> list_all isspace w \<and> list_all isspace v \<and> (post = [] \<or> hd post = nl))"
    by (rule header_search_iff)
next
  assume "ascii ''# '' @ d \<in> set (split_nl s)"
  then show "header_search d s"
    by (rule exact_line_found)
qed

theorem ensure_date_header_noop_iff_witness:
  "[ascii ''notes'', ascii ''2025.md''] \<noteq> [] \<and>
   [[ascii ''notes'', ascii ''2025.md''] \<mapsto> File (ascii ''* a'' @ [nl] @ ascii ''# 08/14/2025'' @ [nl])]
      [ascii ''notes'', ascii ''2025.md''] =
     Some (File (ascii ''* a'' @ [nl] @ ascii ''# 08/14/2025'' @ [nl])) \<and>
   ascii ''# '' @ ascii ''08/14/2025'' \<in>
     set (split_nl (universal_newlines False (ascii ''* a'' @ [nl] @ ascii ''# 08/14/2025'' @ [nl]))) \<and>
   ensure_date_header
     [[ascii ''notes'', ascii ''2025.md''] \<mapsto> File (ascii ''* a'' @ [nl] @ ascii ''# 08/14/2025'' @ [nl])]
     [ascii ''notes'', ascii ''2025.md''] \<lparr>year = 2025, month = 8, day = 14\<rparr> =
     (Inr (), [[ascii ''notes'', ascii ''2025.md''] \<mapsto>
        File (ascii ''* a'' @ [nl] @ ascii ''# 08/14/2025'' @ [nl])])"
proof -
  have u: "universal_newlines False (ascii ''* a'' @ [nl] @ ascii ''# 08/14/2025'' @ [nl]) =
      ascii ''* a'' @ [nl] @ ascii ''# 08/14/2025'' @ [nl]"
    by (simp add: ascii_def nl_def)
  have m: "ascii ''# '' @ ascii ''08/14/2025'' \<in>
      set (split_nl (ascii ''* a'' @ [nl] @ ascii ''# 08/14/2025'' @ [nl]))"
    by (simp add: ascii_def nl_def)
  note w = ensure_date_header_noop_iff [of "[ascii ''notes'', ascii ''2025.md'']"
      "[[ascii ''notes'', ascii ''2025.md''] \<mapsto>
         File (ascii ''* a'' @ [nl] @ ascii ''# 08/14/2025'' @ [nl])]"
      "ascii ''* a'' @ [nl] @ ascii ''# 08/14/2025'' @ [nl]"
      "\<lparr>year = 2025, month = 8, day = 14\<rparr>" "ascii ''08/14/2025''"
      "ascii ''* a'' @ [nl] @ ascii ''# 08/14/2025'' @ [nl]"]
  have f: "header_search (ascii ''08/14/2025'') (ascii ''* a'' @ [nl] @ ascii ''# 08/14/2025'' @ [nl])"
    using w [THEN conjunct2, THEN conjunct2] m by simp
  show ?thesis
    using m f w [THEN conjunct1] unfolding strftime_example u by simp
qed

text \<open>
  The claim as stated asks for a line exactly equal to the header. A file whose only
  line has two spaces after the \<^verbatim>\<open>#\<close> has no such line, and still nothing is appended.
\<close>

theorem ensure_date_header_exact_line_counterexample:
  "ascii ''# 08/14/2025'' \<notin> set (split_nl (ascii ''#  08/14/2025'' @ [nl])) \<and>
   read_text [[ascii ''notes'', ascii ''2025.md''] \<mapsto> File (ascii ''#  08/14/2025'' @ [nl])]
     [ascii ''notes'', ascii ''2025.md''] = Inr (ascii ''#  08/14/2025'' @ [nl]) \<and>
   ensure_date_header
     [[ascii ''notes'', ascii ''2025.md''] \<mapsto> File (ascii ''#  08/14/2025'' @ [nl])]
     [ascii ''notes'', ascii ''2025.md''] \<lparr>year = 2025, month = 8, day = 14\<rparr> =
     (Inr (), [[ascii ''notes'', ascii ''2025.md''] \<mapsto> File (ascii ''#  08/14/2025'' @ [nl])])"
proof -
  have u: "universal_newlines False (ascii ''#  08/14/2025'' @ [nl]) = ascii ''#  08/14/2025'' @ [nl]"
    by (simp add: ascii_def nl_def)
  have f: "header_search (ascii ''08/14/2025'') (ascii ''#  08/14/2025'' @ [nl])"
    by (simp add: search_eval_defs)
  have l: "ascii ''# 08/14/2025'' \<notin> set (split_nl (ascii ''#  08/14/2025'' @ [nl]))"
    by (simp add: ascii_def nl_def)
  have r: "read_text [[ascii ''notes'', ascii ''2025.md''] \<mapsto> File (ascii ''#  08/14/2025'' @ [nl])]
     [ascii ''notes'', ascii ''2025.md''] = Inr (ascii ''#  08/14/2025'' @ [nl])"
    unfolding read_text_def by (simp add: u)
  show ?thesis
    using f l r
      ensure_date_header_file [of "[ascii ''notes'', ascii ''2025.md'']"
        "[[ascii ''notes'', ascii ''2025.md''] \<mapsto> File (ascii ''#  08/14/2025'' @ [nl])]"
        "ascii ''#  08/14/2025'' @ [nl]" "\<lparr>year = 2025, month = 8, day = 14\<rparr>"]
    unfolding strftime_example u by simp
qed

section \<open>Properties of journal texts\<close>






















section \<open>Properties of a run\<close>























section \<open>At most one header for a date\<close>





end
